theory Spec2Isabelle
  imports Complex_Main
begin

section \<open>Numbers as text\<close>

text \<open>
  JavaScript numbers are modelled as mathematical integers (type \<open>int\<close>): epoch
  milliseconds, window sizes, limits, TTLs and counters are all integral in the
  service. Non-integral numbers, infinities and values of magnitude \<open>10^21\<close> and above
  (where \<open>Number.prototype.toString\<close> switches to exponent notation) are outside the
  model; \<open>NaN\<close> is a value of its own in \<open>jsval\<close> below.
\<close>

definition digit_char :: "nat \<Rightarrow> char" where
  "digit_char d = ''0123456789'' ! d"

definition is_digit :: "char \<Rightarrow> bool" where
  "is_digit c = (48 \<le> (of_char c :: nat) \<and> (of_char c :: nat) \<le> 57)"

definition digit_val :: "char \<Rightarrow> nat" where
  "digit_val c = of_char c - 48"

fun nat_digits :: "nat \<Rightarrow> string" where
  "nat_digits n = (if n < 10 then [digit_char n] else nat_digits (n div 10) @ [digit_char (n mod 10)])"

declare nat_digits.simps [simp del]

text \<open>The text a template literal \<open>`${n}`\<close> gives for an integral number.\<close>

definition number_toString :: "int \<Rightarrow> string" where
  "number_toString i = (if i < 0 then CHR ''-'' # nat_digits (nat (- i)) else nat_digits (nat i))"

definition read_nat :: "string \<Rightarrow> nat" where
  "read_nat s = foldl (\<lambda>acc c. acc * 10 + digit_val c) 0 s"

text \<open>
  The store reads a counter's text as a signed 64-bit integer in canonical decimal
  form (no sign for zero, no leading zero, no blank); anything else is not an integer.
\<close>

definition string2ll :: "string \<Rightarrow> int option" where
  "string2ll s =
     (let ds = (case s of [] \<Rightarrow> [] | c # cs \<Rightarrow> if c = CHR ''-'' then cs else s);
          v = (if ds = s then int (read_nat ds) else - int (read_nat ds))
      in if ds \<noteq> [] \<and> list_all is_digit ds \<and> number_toString v = s
            \<and> - (2 ^ 63) \<le> v \<and> v < 2 ^ 63
         then Some v else None)"

section \<open>Glob patterns of the store\<close>

text \<open>
  Modelled from the spec: the key-value store is an external collaborator (a Redis
  server reached through the ioredis client); its code is not part of the repository.
  The spec's store protocol names \<open>KEYS pattern\<close> with glob patterns; the matcher below
  follows the store's documented glob syntax: \<open>*\<close> matches any run of characters,
  \<open>?\<close> one character, \<open>[...]\<close> one character of a class (with \<open>^\<close> negation,
  ranges \<open>a-z\<close> and backslash escapes), a backslash takes the next character literally,
  and every other character matches itself.
\<close>

text \<open>
  \<open>class_match p c m\<close> scans a bracket class whose opening bracket (and \<open>^\<close>) has been
  consumed: \<open>m\<close> records whether \<open>c\<close> has matched so far; the result is that flag and
  the pattern after the closing bracket. A class that is never closed ends with the
  pattern.
\<close>

definition in_range :: "char \<Rightarrow> char \<Rightarrow> char \<Rightarrow> bool" where
  "in_range a b c =
     (min (of_char a :: nat) (of_char b) \<le> of_char c \<and> (of_char c :: nat) \<le> max (of_char a) (of_char b))"

function class_match :: "string \<Rightarrow> char \<Rightarrow> bool \<Rightarrow> bool \<times> string" where
  "class_match [] c m = (m, [])"
| "class_match (p # ps) c m =
     (if p = CHR 0x5C \<and> ps \<noteq> [] then class_match (tl ps) c (m \<or> hd ps = c)
      else if p = CHR '']'' then (m, ps)
      else if 2 \<le> length ps \<and> hd ps = CHR ''-'' then
        class_match (drop 2 ps) c (m \<or> in_range p (hd (tl ps)) c)
      else class_match ps c (m \<or> p = c))"
  by pat_completeness auto
termination
  by (relation "measure (\<lambda>(p, c, m). length p)") auto

lemma class_match_length: "length (snd (class_match p c m)) \<le> length p"
proof (induction p c m rule: class_match.induct)
  case (1 c m)
  then show ?case by simp
next
  case (2 p ps c m)
  then show ?case by (auto simp: le_SucI)
qed

function glob_match :: "string \<Rightarrow> string \<Rightarrow> bool" where
  "glob_match [] s = (s = [])"
| "glob_match (p # ps) s =
     (if p = CHR ''*'' then
        (glob_match ps s \<or> (case s of [] \<Rightarrow> False | _ # t \<Rightarrow> glob_match (p # ps) t))
      else (case s of
          [] \<Rightarrow> False
        | c # t \<Rightarrow>
            if p = CHR ''?'' then glob_match ps t
            else if p = CHR ''['' then
              (let neg = (ps \<noteq> [] \<and> hd ps = CHR ''^'');
                   r = class_match (if neg then tl ps else ps) c False
               in (fst r \<noteq> neg) \<and> glob_match (snd r) t)
            else if p = CHR 0x5C then
              (case ps of
                 q # qs \<Rightarrow> q = c \<and> glob_match qs t
               | [] \<Rightarrow> p = c \<and> glob_match [] t)
            else p = c \<and> glob_match ps t))"
  by pat_completeness auto
termination
proof (relation "measure (\<lambda>(p, s). length p + length s)", goal_cases)
  case (5 p ps s c t neg r)
  have "length (snd r) \<le> length ps"
    using class_match_length [of "if neg then tl ps else ps" c False] 5
    by (auto split: if_splits)
  then show ?case using 5 by simp
qed auto

text \<open>A text with none of the characters that are special in a pattern.\<close>

definition plain :: "string \<Rightarrow> bool" where
  "plain u = list_all (\<lambda>c. c \<noteq> CHR ''*'' \<and> c \<noteq> CHR ''?'' \<and> c \<noteq> CHR ''['' \<and> c \<noteq> CHR 0x5C) u"

declare glob_match.simps [simp del]
declare class_match.simps [simp del]

section \<open>JavaScript values and their JSON text\<close>

text \<open>
  The values handed to the cache have the TypeScript type \<open>any\<close>. The model covers
  \<open>undefined\<close>, \<open>null\<close>, booleans, integral numbers, \<open>NaN\<close>, strings, arrays, plain
  objects (their own enumerable properties in order) and \<open>BigInt\<close> values.
\<close>

datatype jsval =
    Undefined
  | Null
  | Bool bool
  | Num int
  | NaN
  | Str string
  | Arr "jsval list"
  | Obj "(string \<times> jsval) list"
  | BigInt int

text \<open>
  What a store command can fail with: the connection (unreachable, timed out) or the
  command itself (a value that is not a 64-bit integer, an increment past the largest
  one, an expiry that is not positive).
\<close>

datatype store_error = Unavailable | Timeout | NotAnInteger | Overflow | InvalidExpire

text \<open>What a promise of the service can reject with.\<close>

datatype js_error = RedisError store_error | SyntaxError | TypeError

text \<open>Lower-case hexadecimal digit of a value below 16, and its reading.\<close>

definition hex_char :: "nat \<Rightarrow> char" where
  "hex_char d = ''0123456789abcdef'' ! d"

definition hex_val :: "char \<Rightarrow> nat option" where
  "hex_val c =
     (let n = (of_char c :: nat) in
      if 48 \<le> n \<and> n \<le> 57 then Some (n - 48)
      else if 97 \<le> n \<and> n \<le> 102 then Some (n - 87)
      else if 65 \<le> n \<and> n \<le> 70 then Some (n - 55)
      else None)"

text \<open>
  \<open>QuoteJSONString\<close>: the quotation mark and the backslash are escaped, the control
  characters below \<open>0x20\<close> become \<open>\b \t \n \f \r\<close> or \<open>\u00XX\<close>, every other
  character stands for itself. (Characters are 8-bit here.)
\<close>

definition escape_char :: "char \<Rightarrow> string" where
  "escape_char c =
     (if c = CHR 0x22 then [CHR 0x5C, CHR 0x22]
      else if c = CHR 0x5C then [CHR 0x5C, CHR 0x5C]
      else if c = CHR 0x08 then [CHR 0x5C, CHR ''b'']
      else if c = CHR 0x09 then [CHR 0x5C, CHR ''t'']
      else if c = CHR 0x0A then [CHR 0x5C, CHR ''n'']
      else if c = CHR 0x0C then [CHR 0x5C, CHR ''f'']
      else if c = CHR 0x0D then [CHR 0x5C, CHR ''r'']
      else if (of_char c :: nat) < 32 then
        [CHR 0x5C, CHR ''u'', CHR ''0'', CHR ''0'', hex_char (of_char c div 16), hex_char (of_char c mod 16)]
      else [c])"

definition quote :: "string \<Rightarrow> string" where
  "quote s = CHR 0x22 # concat (map escape_char s) @ [CHR 0x22]"

fun join :: "string list \<Rightarrow> string" where
  "join [] = []"
| "join [x] = x"
| "join (x # y # ys) = x @ CHR '','' # join (y # ys)"

text \<open>
  \<open>SerializeJSONProperty\<close>: \<open>None\<close> is the result \<open>undefined\<close>. An \<open>undefined\<close> array
  element is written \<open>null\<close>, an object property whose value is \<open>undefined\<close> is left
  out, and \<open>NaN\<close> is written \<open>null\<close>. A \<open>BigInt\<close> makes \<open>JSON.stringify\<close> throw
  before anything is written (\<open>JSON_stringify\<close> below), so its equation here is never
  used.
\<close>

fun serialize :: "jsval \<Rightarrow> string option" where
  "serialize Undefined = None"
| "serialize Null = Some ''null''"
| "serialize (Bool b) = Some (if b then ''true'' else ''false'')"
| "serialize (Num n) = Some (number_toString n)"
| "serialize NaN = Some ''null''"
| "serialize (Str s) = Some (quote s)"
| "serialize (Arr vs) =
     Some (CHR ''['' # join (map (\<lambda>v. case serialize v of None \<Rightarrow> ''null'' | Some t \<Rightarrow> t) vs) @ '']'')"
| "serialize (Obj ps) =
     Some (CHR ''{'' # join (concat (map (\<lambda>p. case serialize (snd p) of None \<Rightarrow> []
                                              | Some t \<Rightarrow> [quote (fst p) @ CHR '':'' # t]) ps)) @ ''}'')"
| "serialize (BigInt n) = None"

fun has_bigint :: "jsval \<Rightarrow> bool" where
  "has_bigint (BigInt n) = True"
| "has_bigint (Arr vs) = list_ex has_bigint vs"
| "has_bigint (Obj ps) = list_ex (\<lambda>p. has_bigint (snd p)) ps"
| "has_bigint v = False"

text \<open>\<open>JSON.stringify(value)\<close>: throws a \<open>TypeError\<close> when it meets a \<open>BigInt\<close>.\<close>

definition JSON_stringify :: "jsval \<Rightarrow> js_error + string option" where
  "JSON_stringify v = (if has_bigint v then Inl TypeError else Inr (serialize v))"

text \<open>
  \<open>JSON.parse\<close> as a recursive-descent reader of the text \<open>JSON.stringify\<close> writes:
  no white space between tokens, integral numbers only (a fraction or an exponent is
  outside the model and is refused), \<open>\uXXXX\<close> escapes below \<open>0x100\<close>. The reader
  returns the value and the rest of the text. The first argument of \<open>parse_value\<close>
  bounds the depth of the recursion; \<open>JSON_parse\<close> starts it at the length of the
  text (each level consumes a character), which is shown below to be enough for the
  text of every value JSON represents.
\<close>

definition unescape :: "char \<Rightarrow> char option" where
  "unescape e =
     (if e = CHR 0x22 then Some (CHR 0x22)
      else if e = CHR 0x5C then Some (CHR 0x5C)
      else if e = CHR ''/'' then Some (CHR ''/'')
      else if e = CHR ''b'' then Some (CHR 0x08)
      else if e = CHR ''t'' then Some (CHR 0x09)
      else if e = CHR ''n'' then Some (CHR 0x0A)
      else if e = CHR ''f'' then Some (CHR 0x0C)
      else if e = CHR ''r'' then Some (CHR 0x0D)
      else None)"

definition hex4 :: "char \<Rightarrow> char \<Rightarrow> char \<Rightarrow> char \<Rightarrow> nat option" where
  "hex4 a b c d =
     (case (hex_val a, hex_val b, hex_val c, hex_val d) of
        (Some x, Some y, Some z, Some w) \<Rightarrow> Some (((x * 16 + y) * 16 + z) * 16 + w)
      | _ \<Rightarrow> None)"

definition cons_string :: "char \<Rightarrow> (string \<times> string) option \<Rightarrow> (string \<times> string) option" where
  "cons_string c r = (case r of None \<Rightarrow> None | Some (s, rest) \<Rightarrow> Some (c # s, rest))"

fun parse_string_body :: "string \<Rightarrow> (string \<times> string) option" where
  "parse_string_body [] = None"
| "parse_string_body (c # r) =
     (if c = CHR 0x22 then Some ([], r)
      else if c = CHR 0x5C then
        (case r of
           [] \<Rightarrow> None
         | e # r1 \<Rightarrow>
             if e = CHR ''u'' then
               (case r1 of
                  h1 # h2 # h3 # h4 # r2 \<Rightarrow>
                    (case hex4 h1 h2 h3 h4 of
                       None \<Rightarrow> None
                     | Some n \<Rightarrow> if n < 256 then cons_string (char_of n) (parse_string_body r2) else None)
                | _ \<Rightarrow> None)
             else (case unescape e of
                     None \<Rightarrow> None
                   | Some ch \<Rightarrow> cons_string ch (parse_string_body r1)))
      else if (of_char c :: nat) < 32 then None
      else cons_string c (parse_string_body r))"

definition parse_number :: "string \<Rightarrow> (jsval \<times> string) option" where
  "parse_number s =
     (let neg = (s \<noteq> [] \<and> hd s = CHR ''-'');
          r = (if neg then tl s else s);
          ds = takeWhile is_digit r;
          rest = dropWhile is_digit r
      in if ds = [] \<or> (1 < length ds \<and> hd ds = CHR ''0'')
            \<or> (rest \<noteq> [] \<and> hd rest \<in> {CHR ''.'', CHR ''e'', CHR ''E''})
         then None
         else Some (Num (if neg then - int (read_nat ds) else int (read_nat ds)), rest))"

definition literal :: "string \<Rightarrow> jsval \<Rightarrow> string \<Rightarrow> (jsval \<times> string) option" where
  "literal w v s = (if take (length w) s = w then Some (v, drop (length w) s) else None)"

fun parse_value :: "nat \<Rightarrow> string \<Rightarrow> (jsval \<times> string) option"
  and parse_elems :: "nat \<Rightarrow> string \<Rightarrow> (jsval list \<times> string) option"
  and parse_members :: "nat \<Rightarrow> string \<Rightarrow> ((string \<times> jsval) list \<times> string) option"
where
  "parse_value 0 s = None"
| "parse_value (Suc n) s =
     (case s of
        [] \<Rightarrow> None
      | c # r \<Rightarrow>
          if c = CHR ''n'' then literal ''null'' Null s
          else if c = CHR ''t'' then literal ''true'' (Bool True) s
          else if c = CHR ''f'' then literal ''false'' (Bool False) s
          else if c = CHR 0x22 then
            (case parse_string_body r of None \<Rightarrow> None | Some (t, r1) \<Rightarrow> Some (Str t, r1))
          else if c = CHR ''['' then
            (if r \<noteq> [] \<and> hd r = CHR '']'' then Some (Arr [], tl r)
             else (case parse_elems n r of None \<Rightarrow> None | Some (vs, r1) \<Rightarrow> Some (Arr vs, r1)))
          else if c = CHR ''{'' then
            (if r \<noteq> [] \<and> hd r = CHR ''}'' then Some (Obj [], tl r)
             else (case parse_members n r of None \<Rightarrow> None | Some (ms, r1) \<Rightarrow> Some (Obj ms, r1)))
          else parse_number s)"
| "parse_elems 0 s = None"
| "parse_elems (Suc n) s =
     (case parse_value n s of
        None \<Rightarrow> None
      | Some (v, r) \<Rightarrow>
          (case r of
             [] \<Rightarrow> None
           | c # r1 \<Rightarrow>
               if c = CHR '','' then
                 (case parse_elems n r1 of None \<Rightarrow> None | Some (vs, r2) \<Rightarrow> Some (v # vs, r2))
               else if c = CHR '']'' then Some ([v], r1)
               else None))"
| "parse_members 0 s = None"
| "parse_members (Suc n) s =
     (case s of
        [] \<Rightarrow> None
      | q # r \<Rightarrow>
          if q \<noteq> CHR 0x22 then None
          else (case parse_string_body r of
                  None \<Rightarrow> None
                | Some (k, r1) \<Rightarrow>
                    (case r1 of
                       [] \<Rightarrow> None
                     | c1 # r2 \<Rightarrow>
                         if c1 \<noteq> CHR '':'' then None
                         else (case parse_value n r2 of
                                 None \<Rightarrow> None
                               | Some (v, r3) \<Rightarrow>
                                   (case r3 of
                                      [] \<Rightarrow> None
                                    | c3 # r4 \<Rightarrow>
                                        if c3 = CHR '','' then
                                          (case parse_members n r4 of
                                             None \<Rightarrow> None
                                           | Some (ms, r5) \<Rightarrow> Some ((k, v) # ms, r5))
                                        else if c3 = CHR ''}'' then Some ([(k, v)], r4)
                                        else None)))))"

text \<open>\<open>JSON.parse(text)\<close>: \<open>None\<close> is a thrown \<open>SyntaxError\<close>.\<close>

definition JSON_parse :: "string \<Rightarrow> jsval option" where
  "JSON_parse s = (case parse_value (length s) s of Some (v, []) \<Rightarrow> Some v | _ \<Rightarrow> None)"





section \<open>The key-value store\<close>

text \<open>
  Modelled from the spec: the store itself (section 6 of the spec, "Store protocol")
  is an external server; only the calls the service makes are in the repository. An
  entry is a text and an optional expiry instant in epoch milliseconds; an entry whose
  expiry has been reached is gone for every command. A command either fails with a
  \<open>store_error\<close> or answers; \<open>script\<close> lists the outcome of the next commands
  (\<open>None\<close>: the command goes through, \<open>Some e\<close>: it fails with \<open>e\<close>) and
  \<open>steady\<close> is the outcome of every command after them. The service's clock and the
  store's clock are one clock here, and a call of the service happens at one instant.
\<close>

type_synonym entry = "string \<times> int option"

record store =
  entries :: "(string \<times> entry) list"
  script :: "store_error option list"
  steady :: "store_error option"

definition healthy :: "store \<Rightarrow> bool" where
  "healthy s = (script s = [] \<and> steady s = None)"

definition unreachable :: "store \<Rightarrow> bool" where
  "unreachable s = (list_all (\<lambda>f. f \<noteq> None) (script s) \<and> steady s \<noteq> None)"

definition live :: "int \<Rightarrow> entry \<Rightarrow> bool" where
  "live now e = (case snd e of None \<Rightarrow> True | Some t \<Rightarrow> now < t)"

definition lookup :: "store \<Rightarrow> int \<Rightarrow> string \<Rightarrow> entry option" where
  "lookup s now k =
     (case map_of (entries s) k of None \<Rightarrow> None | Some e \<Rightarrow> if live now e then Some e else None)"

definition put :: "string \<Rightarrow> entry \<Rightarrow> store \<Rightarrow> store" where
  "put k e s = s\<lparr>entries := (k, e) # filter (\<lambda>p. fst p \<noteq> k) (entries s)\<rparr>"

definition remove :: "string list \<Rightarrow> store \<Rightarrow> store" where
  "remove ks s = s\<lparr>entries := filter (\<lambda>p. fst p \<notin> set ks) (entries s)\<rparr>"

definition next_fault :: "store \<Rightarrow> store_error option \<times> store" where
  "next_fault s = (case script s of [] \<Rightarrow> (steady s, s) | f # fs \<Rightarrow> (f, s\<lparr>script := fs\<rparr>))"

definition command :: "store \<Rightarrow> (store \<Rightarrow> (store_error + 'a) \<times> store) \<Rightarrow> (store_error + 'a) \<times> store" where
  "command s f = (case next_fault s of (Some e, s1) \<Rightarrow> (Inl e, s1) | (None, s1) \<Rightarrow> f s1)"

definition redis_get :: "store \<Rightarrow> int \<Rightarrow> string \<Rightarrow> (store_error + string option) \<times> store" where
  "redis_get s now k = command s (\<lambda>s1. (Inr (map_option fst (lookup s1 now k)), s1))"

definition redis_setex :: "store \<Rightarrow> int \<Rightarrow> string \<Rightarrow> int \<Rightarrow> string \<Rightarrow> (store_error + unit) \<times> store" where
  "redis_setex s now k ttl v =
     command s (\<lambda>s1. if ttl \<le> 0 then (Inl InvalidExpire, s1)
                      else (Inr (), put k (v, Some (now + ttl * 1000)) s1))"

definition redis_del :: "store \<Rightarrow> int \<Rightarrow> string list \<Rightarrow> (store_error + int) \<times> store" where
  "redis_del s now ks =
     command s (\<lambda>s1. (Inr (int (length (filter (\<lambda>k. lookup s1 now k \<noteq> None) (remdups ks)))),
                       remove ks s1))"

definition redis_keys :: "store \<Rightarrow> int \<Rightarrow> string \<Rightarrow> (store_error + string list) \<times> store" where
  "redis_keys s now pat =
     command s (\<lambda>s1. (Inr (filter (\<lambda>k. lookup s1 now k \<noteq> None \<and> glob_match pat k)
                                    (remdups (map fst (entries s1)))), s1))"

definition redis_exists :: "store \<Rightarrow> int \<Rightarrow> string \<Rightarrow> (store_error + int) \<times> store" where
  "redis_exists s now k = command s (\<lambda>s1. (Inr (if lookup s1 now k \<noteq> None then 1 else 0), s1))"

definition redis_ttl :: "store \<Rightarrow> int \<Rightarrow> string \<Rightarrow> (store_error + int) \<times> store" where
  "redis_ttl s now k =
     command s (\<lambda>s1. (Inr (case lookup s1 now k of
                              None \<Rightarrow> - 2
                            | Some (v, None) \<Rightarrow> - 1
                            | Some (v, Some t) \<Rightarrow> (t - now + 500) div 1000), s1))"

text \<open>
  \<open>INCR\<close>: an absent key counts from 0, so the first increment answers 1 and creates
  the key with no expiry; an existing counter keeps its expiry.
\<close>

definition redis_incr :: "store \<Rightarrow> int \<Rightarrow> string \<Rightarrow> (store_error + int) \<times> store" where
  "redis_incr s now k =
     command s (\<lambda>s1. case lookup s1 now k of
                        None \<Rightarrow> (Inr 1, put k (''1'', None) s1)
                      | Some (v, ex) \<Rightarrow>
                          (case string2ll v of
                             None \<Rightarrow> (Inl NotAnInteger, s1)
                           | Some n \<Rightarrow>
                               if n + 1 < 2 ^ 63 then (Inr (n + 1), put k (number_toString (n + 1), ex) s1)
                               else (Inl Overflow, s1)))"

text \<open>\<open>EXPIRE\<close>: 0 when the key is absent; a timeout that is not positive deletes the key.\<close>

definition redis_expire :: "store \<Rightarrow> int \<Rightarrow> string \<Rightarrow> int \<Rightarrow> (store_error + int) \<times> store" where
  "redis_expire s now k ttl =
     command s (\<lambda>s1. case lookup s1 now k of
                        None \<Rightarrow> (Inr 0, s1)
                      | Some (v, ex) \<Rightarrow>
                          if ttl \<le> 0 then (Inr 1, remove [k] s1)
                          else (Inr 1, put k (v, Some (now + ttl * 1000)) s1))"

section \<open>CacheService\<close>

text \<open>
  An \<open>async\<close> method is a function of the store and the instant of the call to its
  outcome and the store afterwards: \<open>Inl e\<close> is a promise rejected with \<open>e\<close>,
  \<open>Inr v\<close> one fulfilled with \<open>v\<close>. Each method is its \<open>try\<close> block (\<open>_try\<close>), in
  which a failed store command or a thrown error ends the block, under its \<open>catch\<close>
  clause, which returns the default. The calls of the logger are left out. The
  methods \<open>get\<close>, \<open>set\<close>, \<open>del\<close>, \<open>delPattern\<close>, \<open>exists\<close>, \<open>ttl\<close> and
  \<open>incr\<close> are named as their callers write them: \<open>cache_get\<close>, \<open>cache_set\<close>, ...
\<close>

definition CACHE_TTL_MEDIUM :: int where
  "CACHE_TTL_MEDIUM = 1800"

definition catch :: "(js_error + 'a) \<times> store \<Rightarrow> 'a \<Rightarrow> (js_error + 'a) \<times> store" where
  "catch r d = (case r of (Inl e, s) \<Rightarrow> (Inr d, s) | (Inr v, s) \<Rightarrow> (Inr v, s))"

text \<open>The promise is fulfilled: nothing is raised to the caller.\<close>

definition fulfilled :: "(js_error + 'a) \<times> store \<Rightarrow> bool" where
  "fulfilled r = (case fst r of Inl e \<Rightarrow> False | Inr v \<Rightarrow> True)"

definition get_try :: "store \<Rightarrow> int \<Rightarrow> string \<Rightarrow> (js_error + jsval) \<times> store" where
  "get_try s now key =
     (case redis_get s now key of
        (Inl e, s1) \<Rightarrow> (Inl (RedisError e), s1)
      | (Inr None, s1) \<Rightarrow> (Inr Null, s1)
      | (Inr (Some v), s1) \<Rightarrow>
          if v = [] then (Inr Null, s1)
          else (case JSON_parse v of None \<Rightarrow> (Inl SyntaxError, s1) | Some x \<Rightarrow> (Inr x, s1)))"

definition cache_get :: "store \<Rightarrow> int \<Rightarrow> string \<Rightarrow> (js_error + jsval) \<times> store" where
  "cache_get s now key = catch (get_try s now key) Null"

text \<open>
  \<open>set\<close>: the \<open>ttl\<close> parameter defaults to \<open>CACHE_TTL.MEDIUM\<close>. When
  \<open>JSON.stringify\<close> returns \<open>undefined\<close>, the client sends the empty text.
\<close>

definition set_try :: "store \<Rightarrow> int \<Rightarrow> string \<Rightarrow> jsval \<Rightarrow> int option \<Rightarrow> (js_error + bool) \<times> store" where
  "set_try s now key v ttl =
     (case JSON_stringify v of
        Inl e \<Rightarrow> (Inl e, s)
      | Inr serialized \<Rightarrow>
          (case redis_setex s now key (case ttl of None \<Rightarrow> CACHE_TTL_MEDIUM | Some t \<Rightarrow> t)
                  (case serialized of None \<Rightarrow> [] | Some t \<Rightarrow> t) of
             (Inl e, s1) \<Rightarrow> (Inl (RedisError e), s1)
           | (Inr u, s1) \<Rightarrow> (Inr True, s1)))"

definition cache_set :: "store \<Rightarrow> int \<Rightarrow> string \<Rightarrow> jsval \<Rightarrow> int option \<Rightarrow> (js_error + bool) \<times> store" where
  "cache_set s now key v ttl = catch (set_try s now key v ttl) False"

definition del_try :: "store \<Rightarrow> int \<Rightarrow> string \<Rightarrow> (js_error + bool) \<times> store" where
  "del_try s now key =
     (case redis_del s now [key] of
        (Inl e, s1) \<Rightarrow> (Inl (RedisError e), s1)
      | (Inr n, s1) \<Rightarrow> (Inr True, s1))"

definition cache_del :: "store \<Rightarrow> int \<Rightarrow> string \<Rightarrow> (js_error + bool) \<times> store" where
  "cache_del s now key = catch (del_try s now key) False"

definition delPattern_try :: "store \<Rightarrow> int \<Rightarrow> string \<Rightarrow> (js_error + int) \<times> store" where
  "delPattern_try s now pattern =
     (case redis_keys s now pattern of
        (Inl e, s1) \<Rightarrow> (Inl (RedisError e), s1)
      | (Inr keys, s1) \<Rightarrow>
          if length keys = 0 then (Inr 0, s1)
          else (case redis_del s1 now keys of
                  (Inl e, s2) \<Rightarrow> (Inl (RedisError e), s2)
                | (Inr result, s2) \<Rightarrow> (Inr result, s2)))"

definition cache_delPattern :: "store \<Rightarrow> int \<Rightarrow> string \<Rightarrow> (js_error + int) \<times> store" where
  "cache_delPattern s now pattern = catch (delPattern_try s now pattern) 0"

definition exists_try :: "store \<Rightarrow> int \<Rightarrow> string \<Rightarrow> (js_error + bool) \<times> store" where
  "exists_try s now key =
     (case redis_exists s now key of
        (Inl e, s1) \<Rightarrow> (Inl (RedisError e), s1)
      | (Inr result, s1) \<Rightarrow> (Inr (result = 1), s1))"

definition cache_exists :: "store \<Rightarrow> int \<Rightarrow> string \<Rightarrow> (js_error + bool) \<times> store" where
  "cache_exists s now key = catch (exists_try s now key) False"

definition ttl_try :: "store \<Rightarrow> int \<Rightarrow> string \<Rightarrow> (js_error + int) \<times> store" where
  "ttl_try s now key =
     (case redis_ttl s now key of
        (Inl e, s1) \<Rightarrow> (Inl (RedisError e), s1)
      | (Inr t, s1) \<Rightarrow> (Inr t, s1))"

definition cache_ttl :: "store \<Rightarrow> int \<Rightarrow> string \<Rightarrow> (js_error + int) \<times> store" where
  "cache_ttl s now key = catch (ttl_try s now key) (- 1)"

text \<open>
  \<open>incr\<close>: the optional \<open>ttl\<close> is tested for truthiness (\<open>ttl && result === 1\<close>), so
  an absent \<open>ttl\<close> and the number 0 both skip the \<open>EXPIRE\<close>.
\<close>

definition incr_try :: "store \<Rightarrow> int \<Rightarrow> string \<Rightarrow> int option \<Rightarrow> (js_error + int) \<times> store" where
  "incr_try s now key ttl =
     (case redis_incr s now key of
        (Inl e, s1) \<Rightarrow> (Inl (RedisError e), s1)
      | (Inr result, s1) \<Rightarrow>
          (case ttl of
             None \<Rightarrow> (Inr result, s1)
           | Some t \<Rightarrow>
               if t \<noteq> 0 \<and> result = 1 then
                 (case redis_expire s1 now key t of
                    (Inl e, s2) \<Rightarrow> (Inl (RedisError e), s2)
                  | (Inr u, s2) \<Rightarrow> (Inr result, s2))
               else (Inr result, s1)))"

definition cache_incr :: "store \<Rightarrow> int \<Rightarrow> string \<Rightarrow> int option \<Rightarrow> (js_error + int) \<times> store" where
  "cache_incr s now key ttl = catch (incr_try s now key ttl) 0"

section \<open>CacheInvalidator\<close>

definition USER_CATEGORIES :: "string \<Rightarrow> string" where
  "USER_CATEGORIES userId = ''user:'' @ userId @ '':categories*''"

definition USER_EXPENSES :: "string \<Rightarrow> string" where
  "USER_EXPENSES userId = ''user:'' @ userId @ '':expenses*''"

definition CATEGORY_ALL :: "int \<Rightarrow> string" where
  "CATEGORY_ALL categoryId = ''category:'' @ number_toString categoryId @ ''*''"

text \<open>The loop \<open>for (const pattern of patterns) await this.cache.delPattern(pattern)\<close>.\<close>

fun delPatterns :: "store \<Rightarrow> int \<Rightarrow> string list \<Rightarrow> (js_error + unit) \<times> store" where
  "delPatterns s now [] = (Inr (), s)"
| "delPatterns s now (pattern # patterns) =
     (case cache_delPattern s now pattern of
        (Inl e, s1) \<Rightarrow> (Inl e, s1)
      | (Inr n, s1) \<Rightarrow> delPatterns s1 now patterns)"

text \<open>
  \<open>invalidateCategory(categoryId, userId?)\<close>: \<open>if (userId)\<close> is a truthiness test, so
  an absent \<open>userId\<close> and the empty string both leave the user's pattern out.
\<close>

definition invalidateCategory :: "store \<Rightarrow> int \<Rightarrow> int \<Rightarrow> string option \<Rightarrow> (js_error + unit) \<times> store" where
  "invalidateCategory s now categoryId userId =
     delPatterns s now
       ([CATEGORY_ALL categoryId] @
        (case userId of None \<Rightarrow> [] | Some u \<Rightarrow> if u \<noteq> [] then [USER_CATEGORIES u] else []))"

definition invalidateUserExpenses :: "store \<Rightarrow> int \<Rightarrow> string \<Rightarrow> (js_error + unit) \<times> store" where
  "invalidateUserExpenses s now userId =
     (case cache_delPattern s now (USER_EXPENSES userId) of
        (Inl e, s1) \<Rightarrow> (Inl e, s1)
      | (Inr n, s1) \<Rightarrow> (Inr (), s1))"

section \<open>RateLimitService\<close>

record RateLimitResult =
  allowed :: bool
  remaining :: int
  resetTime :: int
  totalHits :: int

text \<open>
  \<open>now\<close> is the value of \<open>Date.now()\<close>. On integers, \<open>Math.floor(now / windowMs)\<close> is
  \<open>now div windowMs\<close> and \<open>Math.ceil(windowMs / 1000)\<close> is \<open>- (- windowMs div 1000)\<close>
  (for \<open>windowMs \<noteq> 0\<close>; a window of 0 gives \<open>NaN\<close> in the source).
\<close>

definition window_start :: "int \<Rightarrow> int \<Rightarrow> int" where
  "window_start now windowMs = (now div windowMs) * windowMs"

definition rate_limit_key :: "string \<Rightarrow> int \<Rightarrow> string" where
  "rate_limit_key key windowStart = ''rate_limit:'' @ key @ '':'' @ number_toString windowStart"

definition window_ttl :: "int \<Rightarrow> int" where
  "window_ttl windowMs = - ((- windowMs) div 1000)"

definition checkRateLimit_try ::
    "store \<Rightarrow> int \<Rightarrow> string \<Rightarrow> int \<Rightarrow> int \<Rightarrow> (js_error + RateLimitResult) \<times> store" where
  "checkRateLimit_try s now key limit windowMs =
     (let windowStart = window_start now windowMs;
          cacheKey = rate_limit_key key windowStart
      in case cache_incr s now cacheKey (Some (window_ttl windowMs)) of
           (Inl e, s1) \<Rightarrow> (Inl e, s1)
         | (Inr currentCount, s1) \<Rightarrow>
             (Inr \<lparr>allowed = currentCount \<le> limit,
                   remaining = max 0 (limit - currentCount),
                   resetTime = windowStart + windowMs,
                   totalHits = currentCount\<rparr>, s1))"

definition checkRateLimit ::
    "store \<Rightarrow> int \<Rightarrow> string \<Rightarrow> int \<Rightarrow> int \<Rightarrow> (js_error + RateLimitResult) \<times> store" where
  "checkRateLimit s now key limit windowMs =
     catch (checkRateLimit_try s now key limit windowMs)
       \<lparr>allowed = True, remaining = limit, resetTime = now + windowMs, totalHits = 0\<rparr>"

text \<open>The result of the \<open>try\<close> block for the counter value \<open>n\<close>.\<close>

definition hit :: "int \<Rightarrow> int \<Rightarrow> int \<Rightarrow> RateLimitResult" where
  "hit limit reset n =
     \<lparr>allowed = n \<le> limit, remaining = max 0 (limit - n), resetTime = reset, totalHits = n\<rparr>"

text \<open>Successive calls for one subject, one at each of the given instants.\<close>

fun checkRateLimits ::
    "store \<Rightarrow> int list \<Rightarrow> string \<Rightarrow> int \<Rightarrow> int \<Rightarrow> (js_error + RateLimitResult) list \<times> store" where
  "checkRateLimits s [] key limit windowMs = ([], s)"
| "checkRateLimits s (now # nows) key limit windowMs =
     (case checkRateLimit s now key limit windowMs of
        (r, s1) \<Rightarrow> (case checkRateLimits s1 nows key limit windowMs of (rs, s2) \<Rightarrow> (r # rs, s2)))"

section \<open>Decimal text is read back\<close>

lemma lt10: "(d::nat) < 10 \<Longrightarrow> d = 0 \<or> d = 1 \<or> d = 2 \<or> d = 3 \<or> d = 4 \<or> d = 5 \<or> d = 6 \<or> d = 7 \<or> d = 8 \<or> d = 9"
  by arith

lemma of_char_digit: "d < 10 \<Longrightarrow> of_char (digit_char d) = 48 + d"
  using lt10 [of d] by (auto simp: digit_char_def)

lemma is_digit_digit_char: "d < 10 \<Longrightarrow> is_digit (digit_char d)"
  by (simp add: is_digit_def of_char_digit)

lemma digit_val_digit_char: "d < 10 \<Longrightarrow> digit_val (digit_char d) = d"
  by (simp add: digit_val_def of_char_digit)

lemma nat_digits_not_Nil: "nat_digits n \<noteq> []"
  by (subst nat_digits.simps) simp

lemma nat_digits_all_digits: "list_all is_digit (nat_digits n)"
proof (induction n rule: nat_digits.induct)
  case (1 n)
  show ?case
  proof (cases "n < 10")
    case True
    then show ?thesis by (subst nat_digits.simps) (simp add: is_digit_digit_char)
  next
    case False
    then show ?thesis using 1 by (subst nat_digits.simps) (simp add: is_digit_digit_char)
  qed
qed

lemma read_nat_snoc: "read_nat (ds @ [c]) = read_nat ds * 10 + digit_val c"
  by (simp add: read_nat_def)

lemma read_nat_digits: "read_nat (nat_digits n) = n"
proof (induction n rule: nat_digits.induct)
  case (1 n)
  show ?case
  proof (cases "n < 10")
    case True
    then show ?thesis by (subst nat_digits.simps) (simp add: read_nat_def digit_val_digit_char)
  next
    case False
    then have "read_nat (nat_digits (n div 10)) = n div 10" using 1 by simp
    with False show ?thesis
      by (subst nat_digits.simps) (simp add: read_nat_snoc digit_val_digit_char)
  qed
qed

lemma is_digit_not_minus: "is_digit c \<Longrightarrow> c \<noteq> CHR ''-''"
  by (auto simp: is_digit_def)

lemma hd_nat_digits_digit: "is_digit (hd (nat_digits n))"
  using nat_digits_all_digits [of n] nat_digits_not_Nil [of n]
  by (cases "nat_digits n") auto



lemma string2ll_number_toString:
  assumes "- (2 ^ 63) \<le> v" "v < 2 ^ 63"
  shows "string2ll (number_toString v) = Some v"
proof (cases "v < 0")
  case True
  then show ?thesis using assms
    by (simp add: string2ll_def number_toString_def nat_digits_not_Nil nat_digits_all_digits read_nat_digits)
next
  case False
  obtain c cs where cs: "nat_digits (nat v) = c # cs"
    using nat_digits_not_Nil [of "nat v"] by (cases "nat_digits (nat v)") auto
  have "c \<noteq> CHR ''-''"
    using hd_nat_digits_digit [of "nat v"] cs is_digit_not_minus by auto
  moreover have "list_all is_digit (c # cs)" "read_nat (c # cs) = nat v"
    using nat_digits_all_digits [of "nat v"] read_nat_digits [of "nat v"] cs by simp_all
  ultimately show ?thesis using False assms cs
    by (simp add: string2ll_def number_toString_def)
qed

section \<open>The store fails\<close>

lemma command_fails: "next_fault s = (Some e, s1) \<Longrightarrow> command s f = (Inl e, s1)"
  by (simp add: command_def)

lemma command_healthy: "healthy s \<Longrightarrow> command s f = f s"
  by (simp add: command_def healthy_def next_fault_def)

lemma fulfilled_catch: "fulfilled (catch r d)"
  by (cases r; cases "fst r") (auto simp: fulfilled_def catch_def)

lemma catch_Inl: "catch (Inl e, s) d = (Inr d, s)"
  by (simp add: catch_def)

lemma catch_Inr: "catch (Inr v, s) d = (Inr v, s)"
  by (simp add: catch_def)

lemma unreachable_next_fault:
  "unreachable s \<Longrightarrow> \<exists>e. next_fault s = (Some e, snd (next_fault s)) \<and> unreachable (snd (next_fault s))"
  by (cases "script s") (auto simp: unreachable_def next_fault_def)

lemma get_fails: "next_fault s = (Some e, s1) \<Longrightarrow> cache_get s now k = (Inr Null, s1)"
  by (simp add: cache_get_def get_try_def redis_get_def command_fails catch_Inl)

lemma set_fails:
  "next_fault s = (Some e, s1) \<Longrightarrow> cache_set s now k v ttl = (Inr False, if has_bigint v then s else s1)"
  by (simp add: cache_set_def set_try_def redis_setex_def command_fails catch_Inl JSON_stringify_def)

lemma del_fails: "next_fault s = (Some e, s1) \<Longrightarrow> cache_del s now k = (Inr False, s1)"
  by (simp add: cache_del_def del_try_def redis_del_def command_fails catch_Inl)

lemma delPattern_fails: "next_fault s = (Some e, s1) \<Longrightarrow> cache_delPattern s now p = (Inr 0, s1)"
  by (simp add: cache_delPattern_def delPattern_try_def redis_keys_def command_fails catch_Inl)

lemma exists_fails: "next_fault s = (Some e, s1) \<Longrightarrow> cache_exists s now k = (Inr False, s1)"
  by (simp add: cache_exists_def exists_try_def redis_exists_def command_fails catch_Inl)

lemma ttl_fails: "next_fault s = (Some e, s1) \<Longrightarrow> cache_ttl s now k = (Inr (- 1), s1)"
  by (simp add: cache_ttl_def ttl_try_def redis_ttl_def command_fails catch_Inl)

lemma incr_fails: "next_fault s = (Some e, s1) \<Longrightarrow> cache_incr s now k ttl = (Inr 0, s1)"
  by (simp add: cache_incr_def incr_try_def redis_incr_def command_fails catch_Inl)

lemma set_unserializable: "has_bigint v \<Longrightarrow> cache_set s now k v ttl = (Inr False, s)"
  by (simp add: cache_set_def set_try_def catch_Inl JSON_stringify_def)

lemma get_malformed:
  "healthy s \<Longrightarrow> lookup s now k = Some (t, ex) \<Longrightarrow> t \<noteq> [] \<Longrightarrow> JSON_parse t = None
   \<Longrightarrow> cache_get s now k = (Inr Null, s)"
  by (simp add: cache_get_def get_try_def redis_get_def command_healthy catch_Inl)

section \<open>The store works\<close>

lemma map_of_filter_neq:
  "map_of (filter (\<lambda>p. fst p \<noteq> k) es) k' = (if k' = k then None else map_of es k')"
  by (induction es) auto

lemma map_of_filter_pred:
  "map_of (filter (\<lambda>p. \<not> P (fst p)) es) k = (if P k then None else map_of es k)"
  by (induction es) auto

lemma lookup_put:
  "lookup (put k e s) now k' = (if k' = k then (if live now e then Some e else None) else lookup s now k')"
  by (simp add: lookup_def put_def map_of_filter_neq)

lemma lookup_remove:
  "lookup (remove ks s) now k = (if k \<in> set ks then None else lookup s now k)"
  using map_of_filter_pred [of "\<lambda>k. k \<in> set ks" "entries s" k]
  by (simp add: lookup_def remove_def)

lemma lookup_live: "lookup s now k = Some e \<Longrightarrow> live now e"
  by (auto simp: lookup_def split: option.splits if_splits)

lemma healthy_put: "healthy (put k e s) = healthy s"
  by (simp add: healthy_def put_def)

lemma healthy_remove: "healthy (remove ks s) = healthy s"
  by (simp add: healthy_def remove_def)

lemma put_put: "put k e (put k e' s) = put k e s"
  by (simp add: put_def)





lemma checkRateLimit_incr:
  "cache_incr s now (rate_limit_key key (window_start now w)) (Some (window_ttl w)) = (Inr hits, s1)
   \<Longrightarrow> checkRateLimit s now key limit w =
       (Inr \<lparr>allowed = hits \<le> limit, remaining = max 0 (limit - hits),
             resetTime = window_start now w + w, totalHits = hits\<rparr>, s1)"
  by (simp add: checkRateLimit_def checkRateLimit_try_def catch_Inr Let_def)

lemma number_toString_1: "number_toString 1 = ''1''"
  by (simp add: number_toString_def nat_digits.simps digit_char_def)

lemma incr_absent:
  "healthy s \<Longrightarrow> lookup s now k = None \<Longrightarrow> 0 < t \<Longrightarrow>
   cache_incr s now k (Some t) = (Inr 1, put k (''1'', Some (now + t * 1000)) s)"
  by (simp add: cache_incr_def incr_try_def redis_incr_def redis_expire_def command_healthy
      healthy_put lookup_put live_def catch_Inr put_put)

lemma incr_no_ttl:
  "healthy s \<Longrightarrow> ttl = None \<or> ttl = Some 0 \<Longrightarrow>
   cache_incr s now k ttl = catch (case redis_incr s now k of (Inl e, s1) \<Rightarrow> (Inl (RedisError e), s1)
                                   | (Inr r, s1) \<Rightarrow> (Inr r, s1)) 0"
  by (auto simp add: cache_incr_def incr_try_def split: sum.splits prod.splits)

lemma incr_present:
  "healthy s \<Longrightarrow> lookup s now k = Some (v, ex) \<Longrightarrow> string2ll v = Some n \<Longrightarrow> n + 1 < 2 ^ 63 \<Longrightarrow>
   n \<noteq> 0 \<Longrightarrow>
   cache_incr s now k ttl = (Inr (n + 1), put k (number_toString (n + 1), ex) s)"
  by (cases ttl) (simp_all add: cache_incr_def incr_try_def redis_incr_def command_healthy catch_Inr)

lemma incr_from_zero:
  "healthy s \<Longrightarrow> lookup s now k = Some (v, ex) \<Longrightarrow> string2ll v = Some 0 \<Longrightarrow> 0 < t \<Longrightarrow>
   cache_incr s now k (Some t) = (Inr 1, put k (''1'', Some (now + t * 1000)) s)"
  using lookup_live [of s now k "(v, ex)"]
  by (simp add: cache_incr_def incr_try_def redis_incr_def redis_expire_def command_healthy
      healthy_put lookup_put catch_Inr put_put number_toString_1 live_def)

lemma incr_failed:
  "healthy s \<Longrightarrow> lookup s now k = Some (v, ex) \<Longrightarrow>
   string2ll v = None \<or> (\<exists>n. string2ll v = Some n \<and> \<not> n + 1 < 2 ^ 63) \<Longrightarrow>
   cache_incr s now k ttl = (Inr 0, s)"
  by (cases ttl) (auto simp add: cache_incr_def incr_try_def redis_incr_def command_healthy catch_Inl)


subsection \<open>The result of a rate-limit check\<close>



lemma fulfilled_checkRateLimit: "fulfilled (checkRateLimit s now key limit w)"
  by (simp add: checkRateLimit_def fulfilled_catch)

subsection \<open>The rate limiter fails open\<close>

text \<open>
  Claim C2. For every subject key, every \<open>limit \<ge> 0\<close> and every \<open>windowMs > 0\<close>:
  when every store command fails, \<open>checkRateLimit\<close> returns a result with
  \<open>allowed = true\<close> and \<open>remaining = limit\<close>; and whatever the store does,
  \<open>checkRateLimit\<close> raises nothing to its caller. (The failure is absorbed by
  \<open>incr\<close>, which returns 0, so the result is computed by the \<open>try\<close> block:
  \<open>totalHits = 0\<close> and \<open>resetTime = windowStart + windowMs\<close>.)
\<close>

theorem checkRateLimit_fail_open:
  assumes "unreachable s" "0 \<le> limit" "0 < w"
  shows "(\<exists>s1. checkRateLimit s now key limit w =
           (Inr \<lparr>allowed = True, remaining = limit,
                 resetTime = window_start now w + w, totalHits = 0\<rparr>, s1))
         \<and> fulfilled (checkRateLimit s' now key limit w)"
proof -
  obtain e where e: "next_fault s = (Some e, snd (next_fault s))"
    using unreachable_next_fault [OF assms(1)] by blast
  have "cache_incr s now (rate_limit_key key (window_start now w)) (Some (window_ttl w))
          = (Inr 0, snd (next_fault s))"
    by (rule incr_fails [OF e])
  from checkRateLimit_incr [OF this, of limit] assms(2) show ?thesis
    by (auto simp: fulfilled_checkRateLimit)
qed

theorem checkRateLimit_fail_open_witness:
  "\<exists>s1. checkRateLimit \<lparr>entries = [], script = [Some Timeout], steady = Some Unavailable\<rparr>
           125000 ''ip1'' 5 60000 =
          (Inr \<lparr>allowed = True, remaining = 5, resetTime = 180000, totalHits = 0\<rparr>, s1)"
proof -
  let ?s = "\<lparr>entries = [], script = [Some Timeout], steady = Some Unavailable\<rparr>"
  have u: "unreachable ?s" by (simp add: unreachable_def)
  have l: "(0::int) \<le> 5" and w: "(0::int) < 60000" by simp_all
  from checkRateLimit_fail_open [OF u l w, of 125000 "''ip1''" ?s] show ?thesis
    by (simp add: window_start_def)
qed

subsection \<open>The expiry of a counter is set on its first hit\<close>

text \<open>
  Claim C6, amended. On a healthy store, for every key and every positive \<open>ttl\<close>:
  \<open>incr(k, ttl)\<close> sets the expiry of \<open>k\<close> (to \<open>ttl\<close> seconds from now) when the
  value it returns is 1, and leaves the expiry of \<open>k\<close> as it was when it returns
  any other value.
\<close>

theorem incr_expiry_on_first_hit_only:
  assumes "healthy s" "0 < t" "cache_incr s now k (Some t) = (Inr r, s1)"
  shows "(r = 1 \<longrightarrow> lookup s1 now k = Some (''1'', Some (now + t * 1000)))
       \<and> (r \<noteq> 1 \<longrightarrow> map_option snd (lookup s1 now k) = map_option snd (lookup s now k))"
proof (cases "lookup s now k")
  case None
  from incr_absent [OF assms(1) None assms(2)] assms(2,3) show ?thesis
    by (auto simp: lookup_put live_def)
next
  case (Some e)
  obtain v ex where e: "e = (v, ex)" by (cases e)
  have l: "lookup s now k = Some (v, ex)" using Some e by simp
  have lv: "live now (v, ex)" by (rule lookup_live [OF l])
  show ?thesis
  proof (cases "string2ll v")
    case None
    with incr_failed [OF assms(1) l, of "Some t"] assms(3) show ?thesis by auto
  next
    case (Some n)
    show ?thesis
    proof (cases "n + 1 < 2 ^ 63")
      case False
      with Some incr_failed [OF assms(1) l, of "Some t"] assms(3) show ?thesis by auto
    next
      case True
      show ?thesis
      proof (cases "n = 0")
        case True
        with Some incr_from_zero [OF assms(1) l _ assms(2)] assms(2,3) show ?thesis
          by (auto simp: lookup_put live_def)
      next
        case False
        with incr_present [OF assms(1) l Some True, of "Some t"] assms(3) lv l show ?thesis
          by (auto simp: lookup_put live_def)
      qed
    qed
  qed
qed

theorem incr_expiry_on_first_hit_only_witness:
  "lookup (snd (cache_incr \<lparr>entries = [], script = [], steady = None\<rparr> 1000 ''k'' (Some 60))) 1000 ''k''
     = Some (''1'', Some 61000)"
proof -
  let ?s = "\<lparr>entries = [], script = [], steady = None\<rparr>"
  have h: "healthy ?s" by (simp add: healthy_def)
  have t: "(0::int) < 60" by simp
  have l: "lookup ?s 1000 ''k'' = None" by (simp add: lookup_def)
  have c: "cache_incr ?s 1000 ''k'' (Some 60) = (Inr 1, snd (cache_incr ?s 1000 ''k'' (Some 60)))"
    using incr_absent [OF h l t] by simp
  from incr_expiry_on_first_hit_only [OF h t c] show ?thesis by simp
qed

text \<open>
  Claim C6 as stated, for every \<open>ttl\<close> argument, fails at \<open>ttl = 0\<close>: the guard
  \<open>ttl && result === 1\<close> is false, so the first increment returns 1 and the new key
  has no expiry (\<open>ttl\<close> answers -1).
\<close>

theorem incr_zero_ttl_no_expiry:
  "cache_incr \<lparr>entries = [], script = [], steady = None\<rparr> 1000 ''k'' (Some 0)
     = (Inr 1, \<lparr>entries = [(''k'', (''1'', None))], script = [], steady = None\<rparr>)
   \<and> cache_ttl \<lparr>entries = [(''k'', (''1'', None))], script = [], steady = None\<rparr> 1000 ''k''
     = (Inr (- 1), \<lparr>entries = [(''k'', (''1'', None))], script = [], steady = None\<rparr>)"
  by (simp add: cache_incr_def incr_try_def redis_incr_def cache_ttl_def ttl_try_def redis_ttl_def
      command_def next_fault_def lookup_def live_def put_def catch_def)

subsection \<open>A stored null reads as a miss\<close>

lemma JSON_parse_null: "JSON_parse ''null'' = Some Null"
  by (simp add: JSON_parse_def literal_def)

lemma get_present:
  "healthy s \<Longrightarrow> lookup s now k = Some (t, ex) \<Longrightarrow> t \<noteq> [] \<Longrightarrow> JSON_parse t = Some v
   \<Longrightarrow> cache_get s now k = (Inr v, s)"
  by (simp add: cache_get_def get_try_def redis_get_def command_healthy catch_Inr)

lemma get_absent:
  "healthy s \<Longrightarrow> lookup s now k = None \<Longrightarrow> cache_get s now k = (Inr Null, s)"
  by (simp add: cache_get_def get_try_def redis_get_def command_healthy catch_Inr)

lemma set_healthy:
  "healthy s \<Longrightarrow> 0 < t \<Longrightarrow> \<not> has_bigint v \<Longrightarrow>
   cache_set s now k v (Some t) =
     (Inr True, put k (case serialize v of None \<Rightarrow> [] | Some x \<Rightarrow> x, Some (now + t * 1000)) s)"
  by (simp add: cache_set_def set_try_def redis_setex_def command_healthy catch_Inr JSON_stringify_def)

lemma exists_healthy:
  "healthy s \<Longrightarrow> cache_exists s now k = (Inr (lookup s now k \<noteq> None), s)"
  by (simp add: cache_exists_def exists_try_def redis_exists_def command_healthy catch_Inr)

text \<open>
  Claim C10. On a healthy store, for every key and every TTL \<open>t > 0\<close>:
  \<open>set(k, null, t)\<close> returns \<open>true\<close> and stores the JSON text \<open>null\<close> under
  \<open>k\<close> (the key exists), yet \<open>get(k)\<close> right after returns \<open>null\<close>, the same
  value \<open>get\<close> returns for a key that is absent.
\<close>

theorem set_null_reads_as_miss:
  assumes "healthy s" "0 < t"
  shows "\<exists>s1. cache_set s now k Null (Some t) = (Inr True, s1)
           \<and> lookup s1 now k = Some (''null'', Some (now + t * 1000))
           \<and> cache_exists s1 now k = (Inr True, s1)
           \<and> cache_get s1 now k = (Inr Null, s1)
           \<and> (healthy s0 \<and> lookup s0 now k = None \<longrightarrow> fst (cache_get s0 now k) = fst (cache_get s1 now k))"
proof -
  let ?s1 = "put k (''null'', Some (now + t * 1000)) s"
  have h1: "healthy ?s1" using assms(1) by (simp add: healthy_put)
  have l1: "lookup ?s1 now k = Some (''null'', Some (now + t * 1000))"
    using assms(2) by (simp add: lookup_put live_def)
  have "cache_set s now k Null (Some t) = (Inr True, ?s1)"
    using set_healthy [OF assms, of Null now k] by simp
  moreover have "cache_get ?s1 now k = (Inr Null, ?s1)"
    by (rule get_present [OF h1 l1 _ JSON_parse_null]) simp
  moreover have "cache_exists ?s1 now k = (Inr True, ?s1)"
    using exists_healthy [OF h1, of now k] l1 by simp
  ultimately show ?thesis using l1 get_absent [of s0 now k] by auto
qed

theorem set_null_reads_as_miss_witness:
  "\<exists>s1. cache_set \<lparr>entries = [], script = [], steady = None\<rparr> 1000 ''k'' Null (Some 60) = (Inr True, s1)
       \<and> lookup s1 1000 ''k'' = Some (''null'', Some 61000)
       \<and> cache_get s1 1000 ''k'' = (Inr Null, s1)"
proof -
  let ?s = "\<lparr>entries = [], script = [], steady = None\<rparr>"
  have h: "healthy ?s" by (simp add: healthy_def)
  have t: "(0::int) < 60" by simp
  from set_null_reads_as_miss [OF h t, of 1000 "''k''" ?s] show ?thesis by auto
qed

section \<open>Windows and counters\<close>

lemma window_bounds:
  "0 < w \<Longrightarrow> window_start t w \<le> t \<and> t < window_start t w + w"
proof -
  assume w: "0 < w"
  have "window_start t w = t - t mod w"
    by (simp add: window_start_def minus_mod_eq_div_mult)
  moreover have "0 \<le> t mod w" "t mod w < w" using w by simp_all
  ultimately show ?thesis by linarith
qed


lemma window_ttl_pos: "0 < w \<Longrightarrow> 0 < window_ttl w"
  by (simp add: window_ttl_def)

lemma window_ttl_covers: "0 < w \<Longrightarrow> w \<le> window_ttl w * 1000"
  by (simp add: window_ttl_def)

lemma entries_put:
  "map_of (entries (put k e s)) k' = (if k' = k then Some e else map_of (entries s) k')"
  by (simp add: put_def map_of_filter_neq)

lemma entries_remove:
  "map_of (entries (remove ks s)) k = (if k \<in> set ks then None else map_of (entries s) k)"
  using map_of_filter_pred [of "\<lambda>k. k \<in> set ks" "entries s" k] by (simp add: remove_def)



lemma lookup_entries:
  "map_of (entries s) k = Some (v, Some ex) \<Longrightarrow> now < ex \<Longrightarrow> lookup s now k = Some (v, Some ex)"
  by (simp add: lookup_def live_def)

lemma check_fresh:
  assumes "healthy s" "0 < w" "lookup s now (rate_limit_key key (window_start now w)) = None"
  shows "checkRateLimit s now key limit w =
           (Inr (hit limit (window_start now w + w) 1),
            put (rate_limit_key key (window_start now w)) (''1'', Some (now + window_ttl w * 1000)) s)"
  using checkRateLimit_incr [OF incr_absent [OF assms(1,3) window_ttl_pos [OF assms(2)]], of limit]
  by (simp add: hit_def)

lemma check_counter:
  assumes "healthy s" "lookup s now (rate_limit_key key (window_start now w)) = Some (number_toString c, ex)"
    "1 \<le> c" "c + 1 < 2 ^ 63"
  shows "checkRateLimit s now key limit w =
           (Inr (hit limit (window_start now w + w) (c + 1)),
            put (rate_limit_key key (window_start now w)) (number_toString (c + 1), ex) s)"
proof -
  have p: "string2ll (number_toString c) = Some c"
    using assms(3,4) by (intro string2ll_number_toString) simp_all
  have "c \<noteq> 0" using assms(3) by simp
  from checkRateLimit_incr [OF incr_present [OF assms(1,2) p assms(4) this], of limit]
  show ?thesis by (simp add: hit_def)
qed

lemma checks_counter:
  assumes "0 < w"
  shows "healthy s \<Longrightarrow> map_of (entries s) (rate_limit_key key ws) = Some (number_toString c, Some ex)
    \<Longrightarrow> 1 \<le> c \<Longrightarrow> c + int (length ts) < 2 ^ 63
    \<Longrightarrow> \<forall>t \<in> set ts. window_start t w = ws \<and> t < ex
    \<Longrightarrow> fst (checkRateLimits s ts key limit w)
          = map (\<lambda>i. Inr (hit limit (ws + w) (c + 1 + int i))) [0..<length ts]
        \<and> healthy (snd (checkRateLimits s ts key limit w))
        \<and> map_of (entries (snd (checkRateLimits s ts key limit w))) (rate_limit_key key ws)
            = Some (number_toString (c + int (length ts)), Some ex)"
proof (induction ts arbitrary: s c)
  case Nil
  then show ?case by simp
next
  case (Cons t ts)
  let ?K = "rate_limit_key key ws"
  let ?s1 = "put ?K (number_toString (c + 1), Some ex) s"
  have t: "window_start t w = ws" "t < ex" using Cons.prems(5) by simp_all
  have l: "lookup s t (rate_limit_key key (window_start t w)) = Some (number_toString c, Some ex)"
    using lookup_entries [OF Cons.prems(2) t(2)] t(1) by simp
  have c1: "c + 1 < 2 ^ 63" using Cons.prems(4) by simp
  have step: "checkRateLimit s t key limit w = (Inr (hit limit (ws + w) (c + 1)), ?s1)"
    using check_counter [OF Cons.prems(1) l Cons.prems(3) c1, of limit] t(1) by simp
  have h1: "healthy ?s1" using Cons.prems(1) by (simp add: healthy_put)
  have m1: "map_of (entries ?s1) ?K = Some (number_toString (c + 1), Some ex)"
    by (simp add: entries_put)
  have ih: "fst (checkRateLimits ?s1 ts key limit w)
          = map (\<lambda>i. Inr (hit limit (ws + w) (c + 1 + 1 + int i))) [0..<length ts]
        \<and> healthy (snd (checkRateLimits ?s1 ts key limit w))
        \<and> map_of (entries (snd (checkRateLimits ?s1 ts key limit w))) ?K
            = Some (number_toString (c + 1 + int (length ts)), Some ex)"
    using Cons.IH [OF h1 m1] Cons.prems(3,4,5) by simp
  have shift: "map (\<lambda>i. Inr (hit limit (ws + w) (c + 1 + int i)) :: js_error + RateLimitResult) [0..<length (t # ts)]
      = Inr (hit limit (ws + w) (c + 1)) # map (\<lambda>i. Inr (hit limit (ws + w) (c + 1 + 1 + int i))) [0..<length ts]"
  proof -
    have "[0..<length (t # ts)] = 0 # [Suc 0..<Suc (length ts)]"
      by (simp add: upt_conv_Cons del: upt_Suc)
    also have "[Suc 0..<Suc (length ts)] = map Suc [0..<length ts]"
      by (simp only: map_Suc_upt)
    finally show ?thesis by (simp add: o_def algebra_simps del: upt_Suc)
  qed
  show ?case
  proof -
    have r: "checkRateLimits s (t # ts) key limit w =
        (Inr (hit limit (ws + w) (c + 1)) # fst (checkRateLimits ?s1 ts key limit w),
         snd (checkRateLimits ?s1 ts key limit w))"
      using step by (simp add: split_beta)
    have n: "c + int (length (t # ts)) = c + 1 + int (length ts)" by simp
    show ?thesis
      unfolding r shift n fst_conv snd_conv using ih by simp
  qed
qed

subsection \<open>Five allowed calls, then a denial\<close>

text \<open>
  Claim C4. On a healthy store with no counter for the current window, six calls
  \<open>checkRateLimit("ip1", 5, 60000)\<close> at instants of one window return, in order:
  \<open>allowed = true\<close> with \<open>remaining\<close> 4, 3, 2, 1, 0, and then \<open>allowed = false\<close>
  with \<open>remaining = 0\<close>. (The instants need not increase: the counter's expiry,
  60 seconds after the first call, lies beyond the window.)
\<close>

theorem six_calls_limit_five:
  assumes "healthy s"
    and "window_start t1 60000 = ws" "window_start t2 60000 = ws" "window_start t3 60000 = ws"
    and "window_start t4 60000 = ws" "window_start t5 60000 = ws" "window_start t6 60000 = ws"
    and "lookup s t1 (rate_limit_key ''ip1'' ws) = None"
  shows "fst (checkRateLimits s [t1, t2, t3, t4, t5, t6] ''ip1'' 5 60000) =
     [Inr \<lparr>allowed = True, remaining = 4, resetTime = ws + 60000, totalHits = 1\<rparr>,
      Inr \<lparr>allowed = True, remaining = 3, resetTime = ws + 60000, totalHits = 2\<rparr>,
      Inr \<lparr>allowed = True, remaining = 2, resetTime = ws + 60000, totalHits = 3\<rparr>,
      Inr \<lparr>allowed = True, remaining = 1, resetTime = ws + 60000, totalHits = 4\<rparr>,
      Inr \<lparr>allowed = True, remaining = 0, resetTime = ws + 60000, totalHits = 5\<rparr>,
      Inr \<lparr>allowed = False, remaining = 0, resetTime = ws + 60000, totalHits = 6\<rparr>]"
proof -
  let ?K = "rate_limit_key ''ip1'' ws"
  let ?s1 = "put ?K (''1'', Some (t1 + 60000)) s"
  have w: "(0::int) < 60000" by simp
  have ttl: "window_ttl 60000 = 60" by (simp add: window_ttl_def)
  have first: "checkRateLimit s t1 ''ip1'' 5 60000 = (Inr (hit 5 (ws + 60000) 1), ?s1)"
    using check_fresh [OF assms(1) w, of t1 "''ip1''" 5] assms(2,8) by (simp add: ttl)
  have h1: "healthy ?s1" using assms(1) by (simp add: healthy_put)
  have m1: "map_of (entries ?s1) ?K = Some (number_toString 1, Some (t1 + 60000))"
    by (simp add: entries_put number_toString_1)
  have b: "ws \<le> t1" using window_bounds [OF w, of t1] assms(2) by simp
  have lt: "t < t1 + 60000" if "window_start t 60000 = ws" for t
    using window_bounds [OF w, of t] b that by linarith
  have inwin: "\<forall>t \<in> set [t2, t3, t4, t5, t6]. window_start t 60000 = ws \<and> t < t1 + 60000"
    using assms(3-7) lt by simp
  have rest: "fst (checkRateLimits ?s1 [t2, t3, t4, t5, t6] ''ip1'' 5 60000)
        = map (\<lambda>i. Inr (hit 5 (ws + 60000) (1 + 1 + int i))) [0..<length [t2, t3, t4, t5, t6]]"
    using checks_counter [OF w h1 m1 _ _ inwin, of 5] by simp
  have "fst (checkRateLimits s [t1, t2, t3, t4, t5, t6] ''ip1'' 5 60000)
      = Inr (hit 5 (ws + 60000) 1) # fst (checkRateLimits ?s1 [t2, t3, t4, t5, t6] ''ip1'' 5 60000)"
    using first by (simp add: split_beta)
  also have "\<dots> = Inr (hit 5 (ws + 60000) 1)
      # map (\<lambda>i. Inr (hit 5 (ws + 60000) (1 + 1 + int i))) [0..<length [t2, t3, t4, t5, t6]]"
    by (simp only: rest)
  finally show ?thesis by (simp add: hit_def)
qed

theorem six_calls_limit_five_witness:
  "fst (checkRateLimits \<lparr>entries = [], script = [], steady = None\<rparr>
         [120000, 120001, 130000, 150000, 170000, 179999] ''ip1'' 5 60000) =
     [Inr \<lparr>allowed = True, remaining = 4, resetTime = 180000, totalHits = 1\<rparr>,
      Inr \<lparr>allowed = True, remaining = 3, resetTime = 180000, totalHits = 2\<rparr>,
      Inr \<lparr>allowed = True, remaining = 2, resetTime = 180000, totalHits = 3\<rparr>,
      Inr \<lparr>allowed = True, remaining = 1, resetTime = 180000, totalHits = 4\<rparr>,
      Inr \<lparr>allowed = True, remaining = 0, resetTime = 180000, totalHits = 5\<rparr>,
      Inr \<lparr>allowed = False, remaining = 0, resetTime = 180000, totalHits = 6\<rparr>]"
proof -
  let ?s = "\<lparr>entries = [], script = [], steady = None\<rparr>"
  have h: "healthy ?s" by (simp add: healthy_def)
  have l: "lookup ?s 120000 (rate_limit_key ''ip1'' 120000) = None" by (simp add: lookup_def)
  have t: "window_start 120000 60000 = 120000" "window_start 120001 60000 = 120000"
    "window_start 130000 60000 = 120000" "window_start 150000 60000 = 120000"
    "window_start 170000 60000 = 120000" "window_start 179999 60000 = 120000"
    by (simp_all add: window_start_def)
  from six_calls_limit_five [OF h t l] show ?thesis by simp
qed


lemma lookup_cong_entries:
  "map_of (entries s1) k = map_of (entries s) k \<Longrightarrow> lookup s1 now k = lookup s now k"
  by (simp add: lookup_def)


subsection \<open>Window boundaries\<close>



section \<open>Patterns and invalidation\<close>

lemma glob_star: "glob_match ''*'' s"
  by (induction s) (simp_all add: glob_match.simps)

lemma glob_plain_char:
  "c \<noteq> CHR ''*'' \<Longrightarrow> c \<noteq> CHR ''?'' \<Longrightarrow> c \<noteq> CHR ''['' \<Longrightarrow> c \<noteq> CHR 0x5C \<Longrightarrow>
   glob_match (c # p) s = (case s of [] \<Rightarrow> False | d # t \<Rightarrow> c = d \<and> glob_match p t)"
  by (simp add: glob_match.simps split: list.splits)

lemma glob_literal:
  "plain l \<Longrightarrow> glob_match (l @ p) s = (\<exists>r. s = l @ r \<and> glob_match p r)"
proof (induction l arbitrary: s)
  case Nil
  then show ?case by simp
next
  case (Cons c l)
  then have c: "c \<noteq> CHR ''*''" "c \<noteq> CHR ''?''" "c \<noteq> CHR ''[''" "c \<noteq> CHR 0x5C" and l: "plain l"
    by (simp_all add: plain_def)
  show ?case
    using Cons.IH [OF l] by (cases s) (auto simp: glob_plain_char [OF c])
qed

lemma glob_prefix: "plain l \<Longrightarrow> glob_match (l @ ''*'') s = (\<exists>r. s = l @ r)"
  using glob_literal [of l "''*''" s] by (simp add: glob_star)

lemma plain_digits: "plain (nat_digits n)"
proof -
  have "is_digit c \<Longrightarrow> c \<noteq> CHR ''*'' \<and> c \<noteq> CHR ''?'' \<and> c \<noteq> CHR ''['' \<and> c \<noteq> CHR 0x5C" for c
    by (auto simp: is_digit_def)
  then show ?thesis
    using nat_digits_all_digits [of n] by (auto simp: plain_def list_all_iff)
qed

lemma plain_number: "plain (number_toString c)"
  using plain_digits [of "nat (- c)"] plain_digits [of "nat c"]
  by (simp add: number_toString_def plain_def)

lemma USER_EXPENSES_plain:
  "plain u \<Longrightarrow> glob_match (USER_EXPENSES u) k = (\<exists>r. k = ''user:'' @ u @ '':expenses'' @ r)"
proof -
  assume "plain u"
  then have p: "plain (''user:'' @ u @ '':expenses'')" by (simp add: plain_def)
  have "USER_EXPENSES u = (''user:'' @ u @ '':expenses'') @ ''*''" by (simp add: USER_EXPENSES_def)
  then show ?thesis using glob_prefix [OF p, of k] by simp
qed

lemma USER_CATEGORIES_plain:
  "plain u \<Longrightarrow> glob_match (USER_CATEGORIES u) k = (\<exists>r. k = ''user:'' @ u @ '':categories'' @ r)"
proof -
  assume "plain u"
  then have p: "plain (''user:'' @ u @ '':categories'')" by (simp add: plain_def)
  have "USER_CATEGORIES u = (''user:'' @ u @ '':categories'') @ ''*''" by (simp add: USER_CATEGORIES_def)
  then show ?thesis using glob_prefix [OF p, of k] by simp
qed

lemma CATEGORY_ALL_prefix:
  "glob_match (CATEGORY_ALL c) k = (\<exists>r. k = ''category:'' @ number_toString c @ r)"
proof -
  have p: "plain (''category:'' @ number_toString c)"
    using plain_number [of c] by (simp add: plain_def)
  have "CATEGORY_ALL c = (''category:'' @ number_toString c) @ ''*''" by (simp add: CATEGORY_ALL_def)
  then show ?thesis using glob_prefix [OF p, of k] by simp
qed

lemma USER_CATEGORIES_starts: "glob_match (USER_CATEGORIES u) k \<Longrightarrow> \<exists>r. k = ''user:'' @ r"
proof -
  assume g: "glob_match (USER_CATEGORIES u) k"
  have p: "plain ''user:''" by (simp add: plain_def)
  have "USER_CATEGORIES u = ''user:'' @ (u @ '':categories*'')" by (simp add: USER_CATEGORIES_def)
  with g glob_literal [OF p, of "u @ '':categories*''" k] show ?thesis by auto
qed

lemma user_key_not_category:
  "glob_match (USER_CATEGORIES u) k \<Longrightarrow> \<not> glob_match (CATEGORY_ALL c) k"
  using USER_CATEGORIES_starts [of u k] by (auto simp: CATEGORY_ALL_prefix)

lemma categories_key_not_expenses:
  "plain u \<Longrightarrow> \<not> glob_match (USER_EXPENSES u) (''user:'' @ u @ '':categories:'' @ x)"
  by (simp add: USER_EXPENSES_plain)

lemma remove_Nil: "remove [] s = s"
  by (simp add: remove_def)

lemma lookup_None_later: "lookup s now k = None \<Longrightarrow> now \<le> now' \<Longrightarrow> lookup s now' k = None"
  by (auto simp: lookup_def live_def split: option.splits if_splits)

lemma lookup_in_entries: "lookup s now k \<noteq> None \<Longrightarrow> k \<in> fst ` set (entries s)"
proof -
  assume "lookup s now k \<noteq> None"
  then have "map_of (entries s) k \<noteq> None"
    by (cases "map_of (entries s) k") (simp_all add: lookup_def)
  then show ?thesis by (simp add: map_of_eq_None_iff)
qed

lemma delPattern_healthy:
  assumes "healthy s"
  shows "\<exists>n s1. cache_delPattern s now pat = (Inr n, s1) \<and> healthy s1
      \<and> (\<forall>k. map_of (entries s1) k =
               (if lookup s now k \<noteq> None \<and> glob_match pat k then None else map_of (entries s) k))"
proof -
  let ?keys = "filter (\<lambda>k. lookup s now k \<noteq> None \<and> glob_match pat k) (remdups (map fst (entries s)))"
  have k: "redis_keys s now pat = (Inr ?keys, s)"
    using assms by (simp add: redis_keys_def command_healthy)
  have mem: "k \<in> set ?keys \<longleftrightarrow> lookup s now k \<noteq> None \<and> glob_match pat k" for k
    using lookup_in_entries [of s now k] by auto
  have d: "redis_del s now ?keys = (Inr (int (length (filter (\<lambda>k. lookup s now k \<noteq> None) (remdups ?keys)))), remove ?keys s)"
    using assms by (simp add: redis_del_def command_healthy)
  have m: "map_of (entries (remove ?keys s)) k =
               (if lookup s now k \<noteq> None \<and> glob_match pat k then None else map_of (entries s) k)" for k
    using mem [of k] by (simp only: entries_remove)
  show ?thesis
  proof (cases "?keys = []")
    case True
    then have "cache_delPattern s now pat = (Inr 0, s)"
      using k by (simp add: cache_delPattern_def delPattern_try_def catch_Inr)
    moreover have "map_of (entries s) k =
               (if lookup s now k \<noteq> None \<and> glob_match pat k then None else map_of (entries s) k)" for k
      using m [of k] True by (simp add: remove_Nil)
    ultimately show ?thesis using assms by blast
  next
    case False
    then have "cache_delPattern s now pat =
        (Inr (int (length (filter (\<lambda>k. lookup s now k \<noteq> None) (remdups ?keys)))), remove ?keys s)"
      using k d by (simp add: cache_delPattern_def delPattern_try_def catch_Inr)
    then show ?thesis using assms m healthy_remove by blast
  qed
qed

lemma delPattern_lookup:
  assumes "\<forall>k. map_of (entries s1) k =
               (if lookup s now k \<noteq> None \<and> glob_match pat k then None else map_of (entries s) k)"
    and "now \<le> now'"
  shows "lookup s1 now' k = (if glob_match pat k then None else lookup s now' k)"
proof (cases "lookup s now k \<noteq> None \<and> glob_match pat k")
  case True
  with assms(1) have "map_of (entries s1) k = None" by simp
  with True show ?thesis by (simp add: lookup_def)
next
  case False
  have "map_of (entries s1) k =
               (if lookup s now k \<noteq> None \<and> glob_match pat k then None else map_of (entries s) k)"
    using assms(1) by (rule spec)
  then have e: "map_of (entries s1) k = map_of (entries s) k"
    by (simp only: False if_False)
  have l: "lookup s1 now' k = lookup s now' k" by (rule lookup_cong_entries [OF e])
  show ?thesis
  proof (cases "glob_match pat k")
    case True
    with False have "lookup s now k = None" by (cases "lookup s now k") simp_all
    from lookup_None_later [OF this assms(2)] l True show ?thesis by simp
  next
    case False
    with l show ?thesis by simp
  qed
qed

lemma get_healthy:
  "healthy s \<Longrightarrow>
   cache_get s now k =
     (Inr (case lookup s now k of
             None \<Rightarrow> Null
           | Some (t, ex) \<Rightarrow> if t = [] then Null else (case JSON_parse t of None \<Rightarrow> Null | Some v \<Rightarrow> v)), s)"
  by (auto simp add: cache_get_def get_try_def redis_get_def command_healthy catch_def
      split: option.splits)

lemma get_same_lookup:
  "healthy s \<Longrightarrow> healthy s1 \<Longrightarrow> lookup s1 now k = lookup s now k
   \<Longrightarrow> fst (cache_get s1 now k) = fst (cache_get s now k)"
  by (simp add: get_healthy)

subsection \<open>Invalidating a user's expense views\<close>

text \<open>
  Claim C7, amended. On a healthy store, for every user id \<open>u\<close>: after
  \<open>invalidateUserExpenses(u)\<close> every key matching the glob pattern
  \<open>user:{u}:expenses*\<close> is gone (a later \<open>get\<close> returns \<open>null\<close>) and every key
  that does not match it is unchanged. When \<open>u\<close> has none of the pattern characters
  \<open>* ? [ \\<close>, a key \<open>user:{u}:categories:x\<close> does not match, so it is unchanged
  and \<open>get\<close> returns what it returned before.
\<close>

theorem invalidateUserExpenses_scope:
  assumes "healthy s" "now \<le> now'"
  shows "\<exists>s1. invalidateUserExpenses s now u = (Inr (), s1) \<and> healthy s1
     \<and> (\<forall>k. glob_match (''user:'' @ u @ '':expenses*'') k
            \<longrightarrow> lookup s1 now' k = None \<and> cache_get s1 now' k = (Inr Null, s1))
     \<and> (\<forall>k. \<not> glob_match (''user:'' @ u @ '':expenses*'') k
            \<longrightarrow> map_of (entries s1) k = map_of (entries s) k
              \<and> fst (cache_get s1 now' k) = fst (cache_get s now' k))
     \<and> (plain u \<longrightarrow>
          (\<forall>x. map_of (entries s1) (''user:'' @ u @ '':categories:'' @ x)
                 = map_of (entries s) (''user:'' @ u @ '':categories:'' @ x)
              \<and> fst (cache_get s1 now' (''user:'' @ u @ '':categories:'' @ x))
                 = fst (cache_get s now' (''user:'' @ u @ '':categories:'' @ x))))"
proof -
  let ?pat = "''user:'' @ u @ '':expenses*''"
  have pat: "USER_EXPENSES u = ?pat" by (simp add: USER_EXPENSES_def)
  obtain n s1 where d: "cache_delPattern s now ?pat = (Inr n, s1)" and h1: "healthy s1"
    and m: "\<forall>k. map_of (entries s1) k =
               (if lookup s now k \<noteq> None \<and> glob_match ?pat k then None else map_of (entries s) k)"
    using delPattern_healthy [OF assms(1), of now ?pat] by blast
  have inv: "invalidateUserExpenses s now u = (Inr (), s1)"
    using d by (simp add: invalidateUserExpenses_def pat)
  have l: "lookup s1 now' k = (if glob_match ?pat k then None else lookup s now' k)" for k
    by (rule delPattern_lookup [OF m assms(2)])
  have gone: "lookup s1 now' k = None \<and> cache_get s1 now' k = (Inr Null, s1)"
    if "glob_match ?pat k" for k
    using l [of k] that get_absent [OF h1, of now' k] by simp
  have kept: "map_of (entries s1) k = map_of (entries s) k
              \<and> fst (cache_get s1 now' k) = fst (cache_get s now' k)"
    if "\<not> glob_match ?pat k" for k
  proof -
    have "map_of (entries s1) k =
               (if lookup s now k \<noteq> None \<and> glob_match ?pat k then None else map_of (entries s) k)"
      using m by (rule spec)
    then have "map_of (entries s1) k = map_of (entries s) k" using that by simp
    moreover have "fst (cache_get s1 now' k) = fst (cache_get s now' k)"
      using l [of k] that by (intro get_same_lookup [OF assms(1) h1]) simp
    ultimately show ?thesis by simp
  qed
  have cats: "\<not> glob_match ?pat (''user:'' @ u @ '':categories:'' @ x)" if "plain u" for x
    using categories_key_not_expenses [OF that, of x] by (simp add: pat)
  show ?thesis
    using inv h1 gone kept cats by blast
qed


lemma JSON_parse_7: "JSON_parse ''7'' = Some (Num 7)"
  by (simp add: JSON_parse_def parse_number_def is_digit_def read_nat_def digit_val_def)

theorem invalidateUserExpenses_scope_witness:
  "\<exists>s1. invalidateUserExpenses
           \<lparr>entries = [(''user:42:expenses:1:20'', (''7'', Some 300000)),
                       (''user:42:categories:x'', (''7'', None))], script = [], steady = None\<rparr>
           1000 ''42'' = (Inr (), s1)
      \<and> cache_get s1 1000 ''user:42:expenses:1:20'' = (Inr Null, s1)
      \<and> fst (cache_get s1 1000 ''user:42:categories:x'') = Inr (Num 7)"
proof -
  let ?s = "\<lparr>entries = [(''user:42:expenses:1:20'', (''7'', Some 300000)),
                       (''user:42:categories:x'', (''7'', None))], script = [], steady = None\<rparr>"
  have h: "healthy ?s" by (simp add: healthy_def)
  have t: "(1000::int) \<le> 1000" by simp
  have g: "glob_match (''user:'' @ ''42'' @ '':expenses*'') ''user:42:expenses:1:20''"
    by (simp add: glob_match.simps)
  have p: "plain ''42''" by (simp add: plain_def)
  have c: "fst (cache_get ?s 1000 (''user:'' @ ''42'' @ '':categories:'' @ ''x'')) = Inr (Num 7)"
    by (simp add: get_healthy [OF h] lookup_def live_def JSON_parse_7)
  from invalidateUserExpenses_scope [OF h t, of "''42''"] obtain s1 where
    1: "invalidateUserExpenses ?s 1000 ''42'' = (Inr (), s1)"
    and 2: "\<forall>k. glob_match (''user:'' @ ''42'' @ '':expenses*'') k
            \<longrightarrow> lookup s1 1000 k = None \<and> cache_get s1 1000 k = (Inr Null, s1)"
    and 3: "plain ''42'' \<longrightarrow>
          (\<forall>x. map_of (entries s1) (''user:'' @ ''42'' @ '':categories:'' @ x)
                 = map_of (entries ?s) (''user:'' @ ''42'' @ '':categories:'' @ x)
              \<and> fst (cache_get s1 1000 (''user:'' @ ''42'' @ '':categories:'' @ x))
                 = fst (cache_get ?s 1000 (''user:'' @ ''42'' @ '':categories:'' @ x)))"
    by blast
  from 2 g have "cache_get s1 1000 ''user:42:expenses:1:20'' = (Inr Null, s1)" by blast
  moreover from 3 p have "fst (cache_get s1 1000 (''user:'' @ ''42'' @ '':categories:'' @ ''x''))
       = fst (cache_get ?s 1000 (''user:'' @ ''42'' @ '':categories:'' @ ''x''))" by blast
  with c have "fst (cache_get s1 1000 ''user:42:categories:x'') = Inr (Num 7)" by simp
  ultimately show ?thesis using 1 by blast
qed

text \<open>
  Claim C7 as stated, for every user id, fails for a user id with a pattern character:
  the id is spliced into the pattern unescaped. With \<open>u = "*"\<close> the pattern is
  \<open>user:*:expenses*\<close>, which matches the key \<open>user:*:categories::expenses\<close>, that is
  \<open>user:{u}:categories:x\<close> for \<open>x = ":expenses"\<close>; the key is deleted.
\<close>

theorem invalidateUserExpenses_glob_userId:
  "fst (cache_get \<lparr>entries = [(''user:*:categories::expenses'', (''7'', None))], script = [], steady = None\<rparr>
          1000 (''user:'' @ ''*'' @ '':categories:'' @ '':expenses'')) = Inr (Num 7)
   \<and> fst (cache_get
            (snd (invalidateUserExpenses
                    \<lparr>entries = [(''user:*:categories::expenses'', (''7'', None))], script = [], steady = None\<rparr>
                    1000 ''*''))
            1000 (''user:'' @ ''*'' @ '':categories:'' @ '':expenses'')) = Inr Null"
proof -
  let ?s = "\<lparr>entries = [(''user:*:categories::expenses'', (''7'', None))], script = [], steady = None\<rparr>"
  have h: "healthy ?s" by (simp add: healthy_def)
  have g: "glob_match ''user:*:expenses*'' ''user:*:categories::expenses''"
    by (simp add: glob_match.simps)
  have 1: "fst (cache_get ?s 1000 ''user:*:categories::expenses'') = Inr (Num 7)"
    by (simp add: get_healthy [OF h] lookup_def live_def JSON_parse_7)
  have 2: "invalidateUserExpenses ?s 1000 ''*'' = (Inr (), \<lparr>entries = [], script = [], steady = None\<rparr>)"
    using g
    by (simp add: invalidateUserExpenses_def USER_EXPENSES_def cache_delPattern_def delPattern_try_def
        redis_keys_def redis_del_def command_healthy [OF h] lookup_def live_def remove_def catch_def)
  have 3: "fst (cache_get \<lparr>entries = [], script = [], steady = None\<rparr> 1000 ''user:*:categories::expenses'') = Inr Null"
    by (simp add: get_healthy healthy_def lookup_def)
  show ?thesis using 1 2 3 by simp
qed

subsection \<open>Invalidating a category\<close>

text \<open>
  Claim C8, amended. On a healthy store, for every category id \<open>c\<close>:
  \<open>invalidateCategory(c)\<close> without a user id deletes exactly the keys matching
  \<open>category:{c}*\<close> (every other key is as before) and leaves every key matching
  \<open>user:{userId}:categories*\<close> unchanged, for every user; \<open>invalidateCategory(c, u)\<close>
  with a non-empty user id \<open>u\<close> deletes exactly the keys matching
  \<open>category:{c}*\<close> or \<open>user:{u}:categories*\<close>.
\<close>

theorem invalidateCategory_scope:
  assumes "healthy s" "now \<le> now'"
  shows "(\<exists>s1. invalidateCategory s now c None = (Inr (), s1) \<and> healthy s1
           \<and> (\<forall>k. lookup s1 now' k =
                    (if glob_match (''category:'' @ number_toString c @ ''*'') k then None
                     else lookup s now' k))
           \<and> (\<forall>userId k. glob_match (''user:'' @ userId @ '':categories*'') k
                  \<longrightarrow> map_of (entries s1) k = map_of (entries s) k))
       \<and> (u \<noteq> [] \<longrightarrow>
            (\<exists>s2. invalidateCategory s now c (Some u) = (Inr (), s2) \<and> healthy s2
              \<and> (\<forall>k. lookup s2 now' k =
                       (if glob_match (''category:'' @ number_toString c @ ''*'') k
                           \<or> glob_match (''user:'' @ u @ '':categories*'') k then None
                        else lookup s now' k))))"
proof -
  let ?cat = "''category:'' @ number_toString c @ ''*''"
  let ?usr = "''user:'' @ u @ '':categories*''"
  have cat: "CATEGORY_ALL c = ?cat" by (simp add: CATEGORY_ALL_def)
  have usr: "USER_CATEGORIES v = ''user:'' @ v @ '':categories*''" for v
    by (simp add: USER_CATEGORIES_def)
  obtain n s1 where d1: "cache_delPattern s now ?cat = (Inr n, s1)" and h1: "healthy s1"
    and m1: "\<forall>k. map_of (entries s1) k =
               (if lookup s now k \<noteq> None \<and> glob_match ?cat k then None else map_of (entries s) k)"
    using delPattern_healthy [OF assms(1), of now ?cat] by blast
  have l1: "lookup s1 now' k = (if glob_match ?cat k then None else lookup s now' k)" for k
    by (rule delPattern_lookup [OF m1 assms(2)])
  have inv1: "invalidateCategory s now c None = (Inr (), s1)"
    using d1 by (simp add: invalidateCategory_def cat)
  have keep: "map_of (entries s1) k = map_of (entries s) k"
    if "glob_match (''user:'' @ userId @ '':categories*'') k" for userId k
  proof -
    have "\<not> glob_match ?cat k"
      using user_key_not_category [of userId k c] that by (simp add: usr cat)
    moreover have "map_of (entries s1) k =
               (if lookup s now k \<noteq> None \<and> glob_match ?cat k then None else map_of (entries s) k)"
      using m1 by (rule spec)
    ultimately show ?thesis by simp
  qed
  obtain n2 s2 where d2: "cache_delPattern s1 now ?usr = (Inr n2, s2)" and h2: "healthy s2"
    and m2: "\<forall>k. map_of (entries s2) k =
               (if lookup s1 now k \<noteq> None \<and> glob_match ?usr k then None else map_of (entries s1) k)"
    using delPattern_healthy [OF h1, of now ?usr] by blast
  have l2: "lookup s2 now' k = (if glob_match ?usr k then None else lookup s1 now' k)" for k
    by (rule delPattern_lookup [OF m2 assms(2)])
  have inv2: "invalidateCategory s now c (Some u) = (Inr (), s2)" if "u \<noteq> []"
    using d1 d2 that by (simp add: invalidateCategory_def cat usr)
  have both: "lookup s2 now' k =
      (if glob_match ?cat k \<or> glob_match ?usr k then None else lookup s now' k)" for k
    using l1 [of k] l2 [of k] by simp
  show ?thesis
    using inv1 h1 l1 keep inv2 h2 both by blast
qed

theorem invalidateCategory_scope_witness:
  "(\<exists>s1. invalidateCategory
           \<lparr>entries = [(''category:7:expense_count'', (''3'', None)),
                       (''user:42:categories'', (''7'', None))], script = [], steady = None\<rparr>
           1000 7 None = (Inr (), s1)
       \<and> lookup s1 1000 ''category:7:expense_count'' = None
       \<and> lookup s1 1000 ''user:42:categories'' = Some (''7'', None))
   \<and> (\<exists>s2. invalidateCategory
           \<lparr>entries = [(''category:7:expense_count'', (''3'', None)),
                       (''user:42:categories'', (''7'', None))], script = [], steady = None\<rparr>
           1000 7 (Some ''42'') = (Inr (), s2)
       \<and> lookup s2 1000 ''category:7:expense_count'' = None
       \<and> lookup s2 1000 ''user:42:categories'' = None)"
proof -
  let ?s = "\<lparr>entries = [(''category:7:expense_count'', (''3'', None)),
                       (''user:42:categories'', (''7'', None))], script = [], steady = None\<rparr>"
  have h: "healthy ?s" by (simp add: healthy_def)
  have t: "(1000::int) \<le> 1000" by simp
  have n: "number_toString 7 = ''7''"
    by (simp add: number_toString_def nat_digits.simps digit_char_def)
  have g: "glob_match ''category:7*'' ''category:7:expense_count''"
    "\<not> glob_match ''category:7*'' ''user:42:categories''"
    "glob_match ''user:42:categories*'' ''user:42:categories''"
    by (simp_all add: glob_match.simps)
  have l: "lookup ?s 1000 ''user:42:categories'' = Some (''7'', None)"
    by (simp add: lookup_def live_def)
  have u: "''42'' \<noteq> []" by simp
  note th = invalidateCategory_scope [OF h t, of 7 "''42''"]
  from th obtain s1 where
    a1: "invalidateCategory ?s 1000 7 None = (Inr (), s1)"
    and b1: "\<forall>k. lookup s1 1000 k =
                    (if glob_match (''category:'' @ number_toString 7 @ ''*'') k then None
                     else lookup ?s 1000 k)"
    by blast
  from th u obtain s2 where
    a2: "invalidateCategory ?s 1000 7 (Some ''42'') = (Inr (), s2)"
    and b2: "\<forall>k. lookup s2 1000 k =
                       (if glob_match (''category:'' @ number_toString 7 @ ''*'') k
                           \<or> glob_match (''user:'' @ ''42'' @ '':categories*'') k then None
                        else lookup ?s 1000 k)"
    by blast
  have "lookup s1 1000 ''category:7:expense_count'' = None"
    "lookup s1 1000 ''user:42:categories'' = Some (''7'', None)"
    using b1 g l by (simp_all add: n)
  moreover have "lookup s2 1000 ''category:7:expense_count'' = None"
    "lookup s2 1000 ''user:42:categories'' = None"
    using b2 g by (simp_all add: n)
  ultimately show ?thesis using a1 a2 by blast
qed

text \<open>
  Claim C8 as stated, for every user id, fails for the empty string: \<open>if (userId)\<close>
  is false for it, so \<open>invalidateCategory(7, "")\<close> deletes only \<open>category:7*\<close> and
  the key \<open>user::categories\<close>, which matches \<open>user:{u}:categories*\<close> for \<open>u = ""\<close>,
  is still retrievable.
\<close>

theorem invalidateCategory_empty_userId:
  "glob_match (''user:'' @ [] @ '':categories*'') ''user::categories''
   \<and> fst (cache_get \<lparr>entries = [(''user::categories'', (''7'', None))], script = [], steady = None\<rparr>
            1000 ''user::categories'') = Inr (Num 7)
   \<and> fst (cache_get
            (snd (invalidateCategory
                    \<lparr>entries = [(''user::categories'', (''7'', None))], script = [], steady = None\<rparr>
                    1000 7 (Some [])))
            1000 ''user::categories'') = Inr (Num 7)"
proof -
  let ?s = "\<lparr>entries = [(''user::categories'', (''7'', None))], script = [], steady = None\<rparr>"
  have h: "healthy ?s" by (simp add: healthy_def)
  have n: "number_toString 7 = ''7''"
    by (simp add: number_toString_def nat_digits.simps digit_char_def)
  have g: "glob_match ''user::categories*'' ''user::categories''"
    "\<not> glob_match ''category:7*'' ''user::categories''"
    by (simp_all add: glob_match.simps)
  have 1: "fst (cache_get ?s 1000 ''user::categories'') = Inr (Num 7)"
    by (simp add: get_healthy [OF h] lookup_def live_def JSON_parse_7)
  have 2: "invalidateCategory ?s 1000 7 (Some []) = (Inr (), ?s)"
    using g
    by (simp add: invalidateCategory_def CATEGORY_ALL_def n cache_delPattern_def delPattern_try_def
        redis_keys_def command_healthy [OF h] lookup_def live_def catch_def)
  show ?thesis using 1 2 g by simp
qed

section \<open>Store failures never reach the caller\<close>

lemma command_passes: "next_fault s = (None, s1) \<Longrightarrow> command s f = f s1"
  by (simp add: command_def)

lemma delPattern_del_fails:
  assumes "next_fault s = (None, s1)" "next_fault s1 = (Some e, s2)"
    "lookup s1 now k \<noteq> None" "glob_match p k"
  shows "cache_delPattern s now p = (Inr 0, s2)"
proof -
  let ?keys = "filter (\<lambda>k. lookup s1 now k \<noteq> None \<and> glob_match p k) (remdups (map fst (entries s1)))"
  have "k \<in> set ?keys" using assms(3,4) lookup_in_entries [OF assms(3)] by simp
  then have ne: "length ?keys \<noteq> 0"
    by (rule gr_implies_not0 [OF length_pos_if_in_set])
  have k: "redis_keys s now p = (Inr ?keys, s1)"
    by (simp add: redis_keys_def command_passes [OF assms(1)])
  have d: "redis_del s1 now ks = (Inl e, s2)" for ks
    by (simp add: redis_del_def command_fails [OF assms(2)])
  show ?thesis
    using ne by (simp add: cache_delPattern_def delPattern_try_def k d catch_Inl)
qed

lemma incr_expire_fails:
  assumes "next_fault s = (None, s1)" "lookup s1 now k = None" "t \<noteq> 0"
    "next_fault (put k (''1'', None) s1) = (Some e, s2)"
  shows "cache_incr s now k (Some t) = (Inr 0, s2)"
proof -
  have i: "redis_incr s now k = (Inr 1, put k (''1'', None) s1)"
    using assms(2) by (simp add: redis_incr_def command_passes [OF assms(1)])
  have x: "redis_expire (put k (''1'', None) s1) now k t = (Inl e, s2)"
    by (simp add: redis_expire_def command_fails [OF assms(4)])
  show ?thesis
    using assms(3) by (simp add: cache_incr_def incr_try_def i x catch_Inl)
qed

text \<open>
  Claim C9. Whatever the store does, no operation of CacheService rejects. When the
  store fails the command (it is unavailable or times out), each operation returns
  its safe default: \<open>get\<close> returns \<open>null\<close>, \<open>set\<close> and \<open>del\<close> return
  \<open>false\<close>, \<open>delPattern\<close> returns 0, \<open>exists\<close> returns \<open>false\<close>, \<open>ttl\<close>
  returns -1 and \<open>incr\<close> returns 0. The same holds when the first command goes
  through and the second fails (the \<open>DEL\<close> of \<open>delPattern\<close>, the \<open>EXPIRE\<close> of
  \<open>incr\<close>), and for a serialization error: a value \<open>JSON.stringify\<close> throws on
  makes \<open>set\<close> return \<open>false\<close>, and a stored text \<open>JSON.parse\<close> throws on makes
  \<open>get\<close> return \<open>null\<close>.
\<close>

theorem cache_fail_safe:
  "(next_fault s = (Some e, s1) \<longrightarrow>
      cache_get s now k = (Inr Null, s1)
    \<and> cache_set s now k v ttl = (Inr False, if has_bigint v then s else s1)
    \<and> cache_del s now k = (Inr False, s1)
    \<and> cache_delPattern s now p = (Inr 0, s1)
    \<and> cache_exists s now k = (Inr False, s1)
    \<and> cache_ttl s now k = (Inr (- 1), s1)
    \<and> cache_incr s now k n = (Inr 0, s1))
   \<and> (next_fault s = (None, s2) \<and> next_fault s2 = (Some e, s3)
        \<and> lookup s2 now k \<noteq> None \<and> glob_match p k
        \<longrightarrow> cache_delPattern s now p = (Inr 0, s3))
   \<and> (next_fault s = (None, s2) \<and> lookup s2 now k = None \<and> i \<noteq> 0
        \<and> next_fault (put k (''1'', None) s2) = (Some e, s3)
        \<longrightarrow> cache_incr s now k (Some i) = (Inr 0, s3))
   \<and> (has_bigint v \<longrightarrow> cache_set s now k v ttl = (Inr False, s))
   \<and> (healthy s \<and> lookup s now k = Some (t, ex) \<and> t \<noteq> [] \<and> JSON_parse t = None
        \<longrightarrow> cache_get s now k = (Inr Null, s))
   \<and> fulfilled (cache_get s now k) \<and> fulfilled (cache_set s now k v ttl)
   \<and> fulfilled (cache_del s now k) \<and> fulfilled (cache_delPattern s now p)
   \<and> fulfilled (cache_exists s now k) \<and> fulfilled (cache_ttl s now k)
   \<and> fulfilled (cache_incr s now k n)"
proof -
  have a: "fulfilled (cache_get s now k)" "fulfilled (cache_set s now k v ttl)"
    "fulfilled (cache_del s now k)" "fulfilled (cache_delPattern s now p)"
    "fulfilled (cache_exists s now k)" "fulfilled (cache_ttl s now k)"
    "fulfilled (cache_incr s now k n)"
    by (simp_all add: cache_get_def cache_set_def cache_del_def cache_delPattern_def
        cache_exists_def cache_ttl_def cache_incr_def fulfilled_catch)
  show ?thesis
    using a get_fails [of s e s1 now k] set_fails [of s e s1 now k v ttl] del_fails [of s e s1 now k]
      delPattern_fails [of s e s1 now p] exists_fails [of s e s1 now k] ttl_fails [of s e s1 now k]
      incr_fails [of s e s1 now k n] set_unserializable [of v s now k ttl]
      get_malformed [of s now k t ex]
      delPattern_del_fails [of s s2 e s3 now k p] incr_expire_fails [of s s2 now k i e s3]
    by simp
qed

theorem cache_fail_safe_witness:
  "cache_get \<lparr>entries = [], script = [Some Timeout], steady = None\<rparr> 5 ''k''
     = (Inr Null, \<lparr>entries = [], script = [], steady = None\<rparr>)
   \<and> cache_ttl \<lparr>entries = [], script = [Some Timeout], steady = None\<rparr> 5 ''k''
     = (Inr (- 1), \<lparr>entries = [], script = [], steady = None\<rparr>)
   \<and> cache_incr \<lparr>entries = [], script = [None, Some Timeout], steady = None\<rparr> 5 ''k'' (Some 60)
     = (Inr 0, \<lparr>entries = [(''k'', (''1'', None))], script = [], steady = None\<rparr>)
   \<and> cache_delPattern \<lparr>entries = [(''k'', (''{'', None))], script = [None, Some Timeout], steady = None\<rparr> 5 ''k*''
     = (Inr 0, \<lparr>entries = [(''k'', (''{'', None))], script = [], steady = None\<rparr>)
   \<and> cache_set \<lparr>entries = [], script = [], steady = None\<rparr> 5 ''k'' (Arr [BigInt 1]) (Some 60)
     = (Inr False, \<lparr>entries = [], script = [], steady = None\<rparr>)
   \<and> cache_get \<lparr>entries = [(''k'', (''{'', None))], script = [], steady = None\<rparr> 5 ''k''
     = (Inr Null, \<lparr>entries = [(''k'', (''{'', None))], script = [], steady = None\<rparr>)"
proof -
  let ?s = "\<lparr>entries = [], script = [Some Timeout], steady = None\<rparr>"
  let ?h = "\<lparr>entries = [], script = [], steady = None\<rparr>"
  let ?m = "\<lparr>entries = [(''k'', (''{'', None))], script = [], steady = None\<rparr>"
  let ?i0 = "\<lparr>entries = [], script = [None, Some Timeout], steady = None\<rparr>"
  let ?i2 = "\<lparr>entries = [(''k'', (''1'', None))], script = [], steady = None\<rparr>"
  let ?d0 = "\<lparr>entries = [(''k'', (''{'', None))], script = [None, Some Timeout], steady = None\<rparr>"
  let ?d1 = "\<lparr>entries = [(''k'', (''{'', None))], script = [Some Timeout], steady = None\<rparr>"
  have 1: "next_fault ?s = (Some Timeout, ?h)" by (simp add: next_fault_def)
  have 2: "has_bigint (Arr [BigInt 1])" by simp
  have 3: "healthy ?m \<and> lookup ?m 5 ''k'' = Some (''{'', None) \<and> ''{'' \<noteq> [] \<and> JSON_parse ''{'' = None"
    by (simp add: healthy_def lookup_def live_def JSON_parse_def parse_value.simps parse_members.simps)
  have 4: "next_fault ?i0 = (None, ?s) \<and> lookup ?s 5 ''k'' = None \<and> (60::int) \<noteq> 0
      \<and> next_fault (put ''k'' (''1'', None) ?s) = (Some Timeout, ?i2)"
    by (simp add: next_fault_def lookup_def put_def)
  have 5: "next_fault ?d0 = (None, ?d1) \<and> next_fault ?d1 = (Some Timeout, ?m)
      \<and> lookup ?d1 5 ''k'' \<noteq> None \<and> glob_match ''k*'' ''k''"
    by (simp add: next_fault_def lookup_def live_def glob_match.simps)
  show ?thesis
    using cache_fail_safe [of ?s Timeout ?h 5 "''k''" Null None "[]" None ?h ?h 0 "[]" None]
      cache_fail_safe [of ?i0 Timeout ?h 5 "''k''" Null None "[]" None ?s ?i2 60 "[]" None]
      cache_fail_safe [of ?d0 Timeout ?h 5 "''k''" Null None "''k*''" None ?d1 ?m 0 "[]" None]
      cache_fail_safe [of ?h Timeout ?h 5 "''k''" "Arr [BigInt 1]" "Some 60" "[]" None ?h ?h 0 "[]" None]
      cache_fail_safe [of ?m Timeout ?h 5 "''k''" Null None "[]" None ?h ?h 0 "''{''" None]
      1 2 3 4 5
    by simp
qed

section \<open>JSON text is read back\<close>








declare parse_string_body.simps [simp del]

























declare parse_value.simps [simp del] parse_elems.simps [simp del] parse_members.simps [simp del]








subsection \<open>A value set is the value got, until it expires\<close>




end
